theory Spec2Isabelle
  imports Main
begin

section \<open>Go strings, bytes and runes\<close>

text \<open>
  A Go \<^verbatim>\<open>string\<close> is a byte sequence: \<^typ>\<open>string\<close> here, one \<^typ>\<open>char\<close> per byte, so
  \<^const>\<open>length\<close> is Go's \<^verbatim>\<open>len\<close>. A \<^verbatim>\<open>rune\<close> is an \<^verbatim>\<open>int32\<close>; runes are only compared and
  range-checked in this package, never added, so they are integers here and every
  \<^verbatim>\<open>int32\<close> value is one of them.
\<close>

type_synonym rune = int

definition byte :: "char \<Rightarrow> nat" where
  "byte c = of_char c"

definition RuneError :: rune where
  "RuneError = 0xFFFD"

definition cont :: "char \<Rightarrow> bool" where
  "cont c = (0x80 \<le> byte c \<and> byte c \<le> 0xBF)"

text \<open>
  \<^verbatim>\<open>utf8.DecodeRuneInString\<close>, which is also what the conversion \<^verbatim>\<open>[]rune(s)\<close> applies
  at each position: the rune at the head of the string and its width in bytes. A byte
  below \<^verbatim>\<open>0x80\<close> is itself; a well-formed sequence of two, three or four bytes is its
  code point (overlong forms, surrogates and values above \<^verbatim>\<open>0x10FFFF\<close> are not well
  formed); anything else is \<^verbatim>\<open>RuneError\<close> of width 1.
\<close>

fun DecodeRuneInString :: "string \<Rightarrow> rune \<times> nat" where
  "DecodeRuneInString [] = (RuneError, 0)"
| "DecodeRuneInString (c0 # s) =
     (let b0 = byte c0 in
      if b0 < 0x80 then (int b0, 1)
      else if 0xC0 \<le> b0 \<and> b0 < 0xE0 then
        (case s of
           c1 # _ \<Rightarrow>
             (let r = (b0 mod 0x20) * 0x40 + byte c1 mod 0x40 in
              if cont c1 \<and> 0x7F < r then (int r, 2) else (RuneError, 1))
         | _ \<Rightarrow> (RuneError, 1))
      else if 0xE0 \<le> b0 \<and> b0 < 0xF0 then
        (case s of
           c1 # c2 # _ \<Rightarrow>
             (let r = (b0 mod 0x10) * 0x1000 + (byte c1 mod 0x40) * 0x40 + byte c2 mod 0x40 in
              if cont c1 \<and> cont c2 \<and> 0x7FF < r \<and> \<not> (0xD800 \<le> r \<and> r \<le> 0xDFFF)
              then (int r, 3) else (RuneError, 1))
         | _ \<Rightarrow> (RuneError, 1))
      else if 0xF0 \<le> b0 \<and> b0 < 0xF8 then
        (case s of
           c1 # c2 # c3 # _ \<Rightarrow>
             (let r = (b0 mod 0x08) * 0x40000 + (byte c1 mod 0x40) * 0x1000
                      + (byte c2 mod 0x40) * 0x40 + byte c3 mod 0x40 in
              if cont c1 \<and> cont c2 \<and> cont c3 \<and> 0xFFFF < r \<and> r \<le> 0x10FFFF
              then (int r, 4) else (RuneError, 1))
         | _ \<Rightarrow> (RuneError, 1))
      else (RuneError, 1))"

text \<open>\<^verbatim>\<open>[]rune(s)\<close>: the runes of a string, left to right.\<close>

fun runes :: "string \<Rightarrow> rune list" where
  "runes [] = []"
| "runes (c # s) =
     (case DecodeRuneInString (c # s) of (r, n) \<Rightarrow> r # runes (drop (n - 1) s))"

text \<open>
  \<^verbatim>\<open>string(r)\<close> and the verb \<^verbatim>\<open>%c\<close> of \<^verbatim>\<open>fmt.Sprintf\<close>: the UTF-8 encoding of a rune,
  that of \<^verbatim>\<open>RuneError\<close> for a value that is no code point.
\<close>

definition chr :: "nat \<Rightarrow> char" where
  "chr n = char_of n"

definition EncodeRune :: "rune \<Rightarrow> string" where
  "EncodeRune r =
     (let n = nat r in
      if r < 0 \<or> 0x10FFFF < r \<or> (0xD800 \<le> r \<and> r \<le> 0xDFFF)
      then [chr 0xEF, chr 0xBF, chr 0xBD]
      else if n < 0x80 then [chr n]
      else if n < 0x800 then [chr (0xC0 + n div 0x40), chr (0x80 + n mod 0x40)]
      else if n < 0x10000 then
        [chr (0xE0 + n div 0x1000), chr (0x80 + n div 0x40 mod 0x40), chr (0x80 + n mod 0x40)]
      else
        [chr (0xF0 + n div 0x40000), chr (0x80 + n div 0x1000 mod 0x40),
         chr (0x80 + n div 0x40 mod 0x40), chr (0x80 + n mod 0x40)])"

text \<open>
  A \<^verbatim>\<open>[]byte\<close> is a slice: its elements (\<^verbatim>\<open>len\<close> of them) and, after them, the elements
  of its backing array up to its capacity (\<^verbatim>\<open>cap\<close>), which indexing does not reach but a
  slice expression does. \<^verbatim>\<open>len\<close> and \<^verbatim>\<open>cap\<close> are of type \<^verbatim>\<open>int\<close>, taken to be 64 bits
  wide, so a slice has fewer than \<open>2\<^sup>6\<^sup>3\<close> elements, the spare ones counted.
\<close>

typedef byte_slice =
  "{(b :: string, sp :: string). int (length b) + int (length sp) < 9223372036854775808}"
  by (rule exI [of _ "([], [])"]) simp

setup_lifting type_definition_byte_slice

lift_definition elems :: "byte_slice \<Rightarrow> string" is fst .

lift_definition spare :: "byte_slice \<Rightarrow> string" is snd .

text \<open>
  The slice of the elements \<open>b\<close> with the spare elements \<open>sp\<close> behind them (the empty slice
  if they are too many to be a slice).
\<close>

lift_definition byte_slice_of :: "string \<Rightarrow> string \<Rightarrow> byte_slice" is
  "\<lambda>b sp. if int (length b) + int (length sp) < 9223372036854775808 then (b, sp) else ([], [])"
  by simp

text \<open>
  An \<^verbatim>\<open>int64\<close> is an integer from \<open>-2\<^sup>6\<^sup>3\<close> up to \<open>2\<^sup>6\<^sup>3 - 1\<close>, and \<^verbatim>\<open>+\<close> on \<^verbatim>\<open>int64\<close> wraps
  around.
\<close>

definition add64 :: "int \<Rightarrow> int \<Rightarrow> int" where
  "add64 a b = (a + b + 9223372036854775808) mod 18446744073709551616 - 9223372036854775808"

text \<open>
  A slice expression \<^verbatim>\<open>b[lo:hi]\<close> on a slice panics unless \<^verbatim>\<open>0 <= lo <= hi <= cap(b)\<close>;
  \<^const>\<open>None\<close> is the panic. Otherwise it is the elements of the backing array from \<open>lo\<close> up
  to \<open>hi\<close>, here converted to a string as \<^verbatim>\<open>string(b[lo:hi])\<close> does.
\<close>

definition slice :: "byte_slice \<Rightarrow> int \<Rightarrow> int \<Rightarrow> string option" where
  "slice b lo hi =
     (if 0 \<le> lo \<and> lo \<le> hi \<and> hi \<le> int (length (elems b)) + int (length (spare b))
      then Some (take (nat (hi - lo)) (drop (nat lo) (elems b @ spare b))) else None)"

section \<open>Delimiter configuration\<close>

text \<open>
  The package variables \<^verbatim>\<open>OpenDelimiter\<close> and \<^verbatim>\<open>CloseDelimiter\<close>, as a value that every
  function reading them takes.
\<close>

record Delimiters =
  OpenDelimiter :: rune
  CloseDelimiter :: rune

definition default_delimiters :: Delimiters where
  "default_delimiters = \<lparr>OpenDelimiter = 0x7B, CloseDelimiter = 0x7D\<rparr>"

definition ChangeOpenCloseDelimiter :: "rune \<Rightarrow> rune \<Rightarrow> Delimiters \<Rightarrow> Delimiters" where
  "ChangeOpenCloseDelimiter openDelimiter closeDelimiter d =
     d\<lparr>OpenDelimiter := openDelimiter, CloseDelimiter := closeDelimiter\<rparr>"

section \<open>Runs, fragments and placeholders\<close>

text \<open>
  Modelled from the spec: the type \<^verbatim>\<open>Run\<close>, its methods \<^verbatim>\<open>GetText\<close> and \<^verbatim>\<open>WithText\<close> and
  the constructor \<^verbatim>\<open>NewPlaceholderFragment\<close> are declared outside the files at hand. A run
  is held and compared by reference (\<^verbatim>\<open>run == fragment.Run\<close>): a reference is an address,
  and the store \<open>h\<close> gives the run at each address. No function here writes to a run, so
  the store is only read. A run's text begins in the document bytes at
  \<^verbatim>\<open>Text.OpenTag.End\<close> and is taken to end at \<^verbatim>\<open>Text.CloseTag.Start\<close>. The spec gives
  \<^verbatim>\<open>GetText\<close> no failure, so it is total here: where both offsets lie in the document it
  is the elements between them. The offsets and the two fields of a \<^verbatim>\<open>Position\<close> are
  \<^verbatim>\<open>int64\<close> in the source and integers here; the only arithmetic on them that can leave the
  range of \<^verbatim>\<open>int64\<close> is the addition in \<^verbatim>\<open>Placeholder.Text\<close>, which is \<^const>\<open>add64\<close>.
\<close>

record Position =
  Start :: int
  End :: int

record Run =
  ID :: int
  HasText :: bool
  Text_OpenTag_End :: int
  Text_CloseTag_Start :: int

type_synonym run_ref = nat

type_synonym store = "run_ref \<Rightarrow> Run"

type_synonym DocumentRuns = "run_ref list"

definition GetText :: "store \<Rightarrow> run_ref \<Rightarrow> byte_slice \<Rightarrow> string" where
  "GetText h run docBytes =
     take (nat (Text_CloseTag_Start (h run) - Text_OpenTag_End (h run)))
       (drop (nat (Text_OpenTag_End (h run))) (elems docBytes))"

definition WithText :: "store \<Rightarrow> DocumentRuns \<Rightarrow> DocumentRuns" where
  "WithText h runs = filter (\<lambda>run. HasText (h run)) runs"

record PlaceholderFragment =
  Position :: Position
  Run :: run_ref
  SpanRun :: "run_ref list"

definition NewPlaceholderFragment :: "Position \<Rightarrow> run_ref \<Rightarrow> PlaceholderFragment" where
  "NewPlaceholderFragment pos run = \<lparr>Position = pos, Run = run, SpanRun = []\<rparr>"

record Placeholder =
  Fragments :: "PlaceholderFragment list"

text \<open>
  \<^verbatim>\<open>Placeholder.Text\<close>: the bytes of each fragment in order, read from the document
  between the fragment's offsets moved by the start of its run's text.
\<close>

fun Text_loop ::
  "store \<Rightarrow> PlaceholderFragment list \<Rightarrow> byte_slice \<Rightarrow> string \<Rightarrow> string option" where
  "Text_loop h [] docBytes str = Some str"
| "Text_loop h (fragment # rest) docBytes str =
     (let s = Text_OpenTag_End (h (Run fragment)) in
      case slice docBytes (add64 s (Start (Position fragment)))
             (add64 s (End (Position fragment))) of
        None \<Rightarrow> None
      | Some t \<Rightarrow> Text_loop h rest docBytes (str @ t))"

definition Text :: "store \<Rightarrow> Placeholder \<Rightarrow> byte_slice \<Rightarrow> string option" where
  "Text h p docBytes = Text_loop h (Fragments p) docBytes []"

section \<open>The matcher\<close>

text \<open>A line written by \<^verbatim>\<open>log.Printf\<close>: the run's ID, the run's text and the index.\<close>

datatype diagnostic =
  UnmatchedClose int string int
| UnmatchedOpen int string int

text \<open>
  What the loops of \<^verbatim>\<open>ParsePlaceholders\<close> change: the stack (its top is the last
  element, as \<^verbatim>\<open>append\<close> builds it), the placeholders emitted so far, the flag of the
  run being scanned and the log. A fragment is reachable from one place only, the stack
  or one placeholder, so fragments are values here.
\<close>

record scan_state =
  stack :: "PlaceholderFragment list"
  placeholders :: "Placeholder list"
  hasDelimiter :: bool
  log :: "diagnostic list"

text \<open>The body of the inner loop, at index \<open>i\<close> of the run's runes.\<close>

definition scan_rune ::
  "Delimiters \<Rightarrow> store \<Rightarrow> byte_slice \<Rightarrow> run_ref \<Rightarrow> int \<Rightarrow> rune \<Rightarrow> scan_state \<Rightarrow> scan_state" where
  "scan_rune d h docBytes run i r st =
     (if r = OpenDelimiter d then
        st\<lparr>hasDelimiter := True,
           stack := stack st @ [NewPlaceholderFragment \<lparr>Start = i, End = - 1\<rparr> run]\<rparr>
      else if r = CloseDelimiter d then
        (if length (stack st) = 0 then
           st\<lparr>log := log st @ [UnmatchedClose (ID (h run)) (GetText h run docBytes) i]\<rparr>
         else
           (let fragment = last (stack st);
                st1 = st\<lparr>hasDelimiter := True, stack := butlast (stack st)\<rparr>
            in
            if run = Run fragment then
              (let fragment1 = fragment\<lparr>Position := (Position fragment)\<lparr>End := i + 1\<rparr>\<rparr> in
               st1\<lparr>placeholders := placeholders st1 @ [\<lparr>Fragments = [fragment1]\<rparr>]\<rparr>)
            else
              (let fragment1 = fragment\<lparr>Position := (Position fragment)
                     \<lparr>End := int (length (GetText h (Run fragment) docBytes))\<rparr>\<rparr>;
                   fragments = [fragment1]
                     @ map (\<lambda>srun. NewPlaceholderFragment
                              \<lparr>Start = 0, End = int (length (GetText h srun docBytes))\<rparr> srun)
                         (SpanRun fragment1)
                     @ [NewPlaceholderFragment \<lparr>Start = 0, End = i + 1\<rparr> run]
               in
               st1\<lparr>placeholders := placeholders st1 @ [\<lparr>Fragments = fragments\<rparr>]\<rparr>)))
      else st)"

text \<open>The inner loop, from index \<open>i\<close> over the runes that are left.\<close>

fun scan_runes ::
  "Delimiters \<Rightarrow> store \<Rightarrow> byte_slice \<Rightarrow> run_ref \<Rightarrow> int \<Rightarrow> rune list \<Rightarrow> scan_state
     \<Rightarrow> scan_state" where
  "scan_runes d h docBytes run i [] st = st"
| "scan_runes d h docBytes run i (r # rs) st =
     scan_runes d h docBytes run (i + 1) rs (scan_rune d h docBytes run i r st)"

text \<open>
  The body of the outer loop: the flag starts false, the run's runes are scanned, and a
  run that set no flag is appended to the span runs of every fragment on the stack.
\<close>

definition scan_run ::
  "Delimiters \<Rightarrow> store \<Rightarrow> byte_slice \<Rightarrow> scan_state \<Rightarrow> run_ref \<Rightarrow> scan_state" where
  "scan_run d h docBytes st run =
     (let st1 = scan_runes d h docBytes run 0 (runes (GetText h run docBytes))
                  (st\<lparr>hasDelimiter := False\<rparr>)
      in
      if \<not> hasDelimiter st1 then
        st1\<lparr>stack := map (\<lambda>f. f\<lparr>SpanRun := SpanRun f @ [run]\<rparr>) (stack st1)\<rparr>
      else st1)"

definition initial_state :: scan_state where
  "initial_state = \<lparr>stack = [], placeholders = [], hasDelimiter = False, log = []\<rparr>"

definition scan_all :: "Delimiters \<Rightarrow> store \<Rightarrow> DocumentRuns \<Rightarrow> byte_slice \<Rightarrow> scan_state" where
  "scan_all d h runs docBytes = foldl (scan_run d h docBytes) initial_state (WithText h runs)"

text \<open>
  \<^verbatim>\<open>ParsePlaceholders\<close>: the placeholders and the error it returns, and the log it
  leaves. After the scan every fragment left on the stack is logged, bottom first.
\<close>

type_synonym error = string

definition ParsePlaceholders ::
  "Delimiters \<Rightarrow> store \<Rightarrow> DocumentRuns \<Rightarrow> byte_slice
     \<Rightarrow> (Placeholder list \<times> error option) \<times> diagnostic list" where
  "ParsePlaceholders d h runs docBytes =
     (let st = scan_all d h runs docBytes in
      ((placeholders st, None),
       log st
       @ map (\<lambda>fragment. UnmatchedOpen (ID (h (Run fragment)))
                (GetText h (Run fragment) docBytes) (Start (Position fragment)))
           (stack st)))"

section \<open>Delimiter utilities\<close>

text \<open>
  \<^verbatim>\<open>IsDelimitedPlaceholder\<close> reads the first and the last byte of the string
  (\<^verbatim>\<open>s[0]\<close>, \<^verbatim>\<open>s[len(s)-1]\<close>) and compares each, converted to a rune, with a delimiter.
\<close>

definition IsDelimitedPlaceholder :: "Delimiters \<Rightarrow> string \<Rightarrow> bool" where
  "IsDelimitedPlaceholder d s =
     (if length s < 1 then False
      else
        (let first = s ! 0; last = s ! (length s - 1) in
         if int (byte first) = OpenDelimiter d \<and> int (byte last) = CloseDelimiter d
         then True else False))"

definition AddPlaceholderDelimiter :: "Delimiters \<Rightarrow> string \<Rightarrow> string" where
  "AddPlaceholderDelimiter d s =
     (if IsDelimitedPlaceholder d s then s
      else EncodeRune (OpenDelimiter d) @ s @ EncodeRune (CloseDelimiter d))"

text \<open>
  \<^verbatim>\<open>strings.Trim(s, cutset)\<close> removes every leading and every trailing code point that
  occurs in the cutset. As in the library, a cutset of ASCII bytes is handled byte by
  byte, any other rune by rune, the right end first.
\<close>

definition ContainsRune :: "string \<Rightarrow> rune \<Rightarrow> bool" where
  "ContainsRune s r = (r \<in> set (runes s))"

definition trimLeftASCII :: "string \<Rightarrow> string \<Rightarrow> string" where
  "trimLeftASCII s cutset = dropWhile (\<lambda>c. c \<in> set cutset) s"

definition trimRightASCII :: "string \<Rightarrow> string \<Rightarrow> string" where
  "trimRightASCII s cutset = rev (dropWhile (\<lambda>c. c \<in> set cutset) (rev s))"

fun trimLeftUnicode :: "string \<Rightarrow> string \<Rightarrow> string" where
  "trimLeftUnicode [] cutset = []"
| "trimLeftUnicode (c # s) cutset =
     (case DecodeRuneInString (c # s) of
        (r, n) \<Rightarrow>
          if \<not> ContainsRune cutset r then c # s
          else trimLeftUnicode (drop (n - 1) s) cutset)"

text \<open>
  \<^verbatim>\<open>utf8.DecodeLastRuneInString\<close>: the search for the start of the last rune goes back
  from \<open>start\<close> to \<open>lim\<close> at most and stops at a byte that is no continuation byte.
\<close>

definition RuneStart :: "char \<Rightarrow> bool" where
  "RuneStart c = (\<not> cont c)"

function find_start :: "string \<Rightarrow> int \<Rightarrow> int \<Rightarrow> int" where
  "find_start s start lim =
     (if lim \<le> start then
        (if RuneStart (s ! nat start) then start else find_start s (start - 1) lim)
      else start)"
  by pat_completeness auto
termination
  by (relation "measure (\<lambda>(s, start, lim). nat (start + 1 - lim))") auto

declare find_start.simps [simp del]

definition DecodeLastRuneInString :: "string \<Rightarrow> rune \<times> nat" where
  "DecodeLastRuneInString s =
     (let end = int (length s) in
      if end = 0 then (RuneError, 0)
      else
        (let r = int (byte (s ! nat (end - 1))) in
         if r < 0x80 then (r, 1)
         else
           (let lim = (if end - 4 < 0 then 0 else end - 4);
                start0 = find_start s (end - 2) lim;
                start = (if start0 < 0 then 0 else start0)
            in
            case DecodeRuneInString (drop (nat start) s) of
              (r1, n) \<Rightarrow> if start + int n \<noteq> end then (RuneError, 1) else (r1, n))))"

lemma find_start_le: "find_start s start lim \<le> start"
proof (induction s start lim rule: find_start.induct)
  case (1 s start lim)
  show ?case
  proof (cases "lim \<le> start \<and> \<not> RuneStart (s ! nat start)")
    case True
    then have "find_start s start lim = find_start s (start - 1) lim"
      by (subst find_start.simps) simp
    moreover have "find_start s (start - 1) lim \<le> start - 1"
      using True "1.IH" by simp
    ultimately show ?thesis by simp
  next
    case False
    then have "find_start s start lim = start"
      by (subst find_start.simps) auto
    then show ?thesis by simp
  qed
qed

lemma DecodeLastRuneInString_size:
  assumes "s \<noteq> []"
  shows "1 \<le> snd (DecodeLastRuneInString s)" and "snd (DecodeLastRuneInString s) \<le> length s"
proof -
  let ?e = "int (length s)"
  let ?lim = "if ?e - 4 < 0 then 0 else ?e - 4"
  let ?s0 = "find_start s (?e - 2) ?lim"
  let ?st = "if ?s0 < 0 then 0 else ?s0"
  have e: "1 \<le> ?e" using assms by (cases s) auto
  have "?s0 \<le> ?e - 2" by (rule find_start_le)
  then have st: "0 \<le> ?st" "?st < ?e" using e by auto
  obtain r n where dn: "DecodeRuneInString (drop (nat ?st) s) = (r, n)"
    by (cases "DecodeRuneInString (drop (nat ?st) s)")
  have "1 \<le> snd (DecodeLastRuneInString s) \<and> snd (DecodeLastRuneInString s) \<le> length s"
    using e st dn unfolding DecodeLastRuneInString_def Let_def
    by (auto split: if_splits)
  then show "1 \<le> snd (DecodeLastRuneInString s)" and "snd (DecodeLastRuneInString s) \<le> length s"
    by auto
qed

lemma DecodeLastRuneInString_pos:
  assumes "s \<noteq> []" and "(r, n) = DecodeLastRuneInString s"
  shows "length s - n < length s"
  using DecodeLastRuneInString_size(1) [OF assms(1)] assms by (cases s) (auto simp: snd_def split: prod.splits)

function trimRightUnicode :: "string \<Rightarrow> string \<Rightarrow> string" where
  "trimRightUnicode s cutset =
     (if s = [] then s
      else
        (case DecodeLastRuneInString s of
           (r, n) \<Rightarrow>
             if \<not> ContainsRune cutset r then s
             else trimRightUnicode (take (length s - n) s) cutset))"
  by pat_completeness auto
termination
  by (relation "measure (\<lambda>(s, cutset). length s)")
    (auto intro: DecodeLastRuneInString_pos)

declare trimRightUnicode.simps [simp del]

definition Trim :: "string \<Rightarrow> string \<Rightarrow> string" where
  "Trim s cutset =
     (if s = [] \<or> cutset = [] then s
      else if list_all (\<lambda>c. byte c < 0x80) cutset
      then trimLeftASCII (trimRightASCII s cutset) cutset
      else trimLeftUnicode (trimRightUnicode s cutset) cutset)"

definition RemovePlaceholderDelimiter :: "Delimiters \<Rightarrow> string \<Rightarrow> string" where
  "RemovePlaceholderDelimiter d s =
     (if \<not> IsDelimitedPlaceholder d s then s
      else Trim s (EncodeRune (OpenDelimiter d) @ EncodeRune (CloseDelimiter d)))"

section \<open>Notions of the statements, and example inputs\<close>

text \<open>A store whose every run has the sixteen bytes from offset 0 as its text.\<close>

definition nest_store :: store where
  "nest_store = (\<lambda>_. \<lparr>ID = 1, HasText = True, Text_OpenTag_End = 0, Text_CloseTag_Start = 16\<rparr>)"

definition nest_doc :: byte_slice where
  "nest_doc = byte_slice_of ''foo{bar{bc}d}baz'' []"

text \<open>A byte that, read as a rune, is one of the two delimiters.\<close>

definition delimiter_byte :: "Delimiters \<Rightarrow> char \<Rightarrow> bool" where
  "delimiter_byte d c = (int (byte c) = OpenDelimiter d \<or> int (byte c) = CloseDelimiter d)"

text \<open>The delimiters after \<^verbatim>\<open>ChangeOpenCloseDelimiter(0xAB, 0xBB)\<close>.\<close>

definition guillemets :: Delimiters where
  "guillemets = ChangeOpenCloseDelimiter 0xAB 0xBB default_delimiters"

text \<open>
  The placeholder that a close delimiter at index \<open>i\<close> of \<open>run\<close> makes of the fragment
  it pops: the two branches of the source, named for the proofs.
\<close>

definition emitted :: "store \<Rightarrow> byte_slice \<Rightarrow> run_ref \<Rightarrow> int \<Rightarrow> PlaceholderFragment \<Rightarrow> Placeholder" where
  "emitted h docBytes run i fragment =
     (if run = Run fragment then
        \<lparr>Fragments = [fragment\<lparr>Position := (Position fragment)\<lparr>End := i + 1\<rparr>\<rparr>]\<rparr>
      else
        \<lparr>Fragments =
           [fragment\<lparr>Position := (Position fragment)
              \<lparr>End := int (length (GetText h (Run fragment) docBytes))\<rparr>\<rparr>]
           @ map (\<lambda>srun. NewPlaceholderFragment
                    \<lparr>Start = 0, End = int (length (GetText h srun docBytes))\<rparr> srun)
               (SpanRun fragment)
           @ [NewPlaceholderFragment \<lparr>Start = 0, End = i + 1\<rparr> run]\<rparr>)"

text \<open>
  How the scanner reads a rune: the open delimiter is tested first, so a rune is a close
  delimiter only when it is not the open one.
\<close>

definition is_open :: "Delimiters \<Rightarrow> rune \<Rightarrow> bool" where
  "is_open d r = (r = OpenDelimiter d)"

definition is_close :: "Delimiters \<Rightarrow> rune \<Rightarrow> bool" where
  "is_close d r = (r \<noteq> OpenDelimiter d \<and> r = CloseDelimiter d)"

text \<open>The runes of all the runs that carry text, in scanning order.\<close>

definition all_runes :: "store \<Rightarrow> DocumentRuns \<Rightarrow> byte_slice \<Rightarrow> rune list" where
  "all_runes h runs docBytes =
     concat (map (\<lambda>run. runes (GetText h run docBytes)) (WithText h runs))"

fun is_unmatched_close :: "diagnostic \<Rightarrow> bool" where
  "is_unmatched_close (UnmatchedClose _ _ _) = True"
| "is_unmatched_close (UnmatchedOpen _ _ _) = False"

fun is_unmatched_open :: "diagnostic \<Rightarrow> bool" where
  "is_unmatched_open (UnmatchedClose _ _ _) = False"
| "is_unmatched_open (UnmatchedOpen _ _ _) = True"


text \<open>A run whose text holds neither delimiter, and a fragment whose span runs are all such.\<close>

definition delimiter_free :: "Delimiters \<Rightarrow> store \<Rightarrow> byte_slice \<Rightarrow> run_ref \<Rightarrow> bool" where
  "delimiter_free d h docBytes run =
     list_all (\<lambda>r. r \<noteq> OpenDelimiter d \<and> r \<noteq> CloseDelimiter d)
       (runes (GetText h run docBytes))"

definition spans_free :: "Delimiters \<Rightarrow> store \<Rightarrow> byte_slice \<Rightarrow> PlaceholderFragment \<Rightarrow> bool" where
  "spans_free d h docBytes f = list_all (delimiter_free d h docBytes) (SpanRun f)"

definition spans_ok :: "Delimiters \<Rightarrow> store \<Rightarrow> byte_slice \<Rightarrow> scan_state \<Rightarrow> bool" where
  "spans_ok d h docBytes st =
     (list_all (spans_free d h docBytes) (stack st)
      \<and> list_all (\<lambda>p. list_all (spans_free d h docBytes) (Fragments p)) (placeholders st))"

text \<open>
  One run with the six bytes \<^verbatim>\<open>}a{b}{\<close>: an unmatched close delimiter, a placeholder
  and an unmatched open delimiter.
\<close>

definition heal_store :: store where
  "heal_store = (\<lambda>_. \<lparr>ID = 7, HasText = True, Text_OpenTag_End = 0, Text_CloseTag_Start = 6\<rparr>)"

definition heal_doc :: byte_slice where
  "heal_doc = byte_slice_of (''}a{b}{'') []"

text \<open>
  Three runs, \<^verbatim>\<open>{a\<close>, \<^verbatim>\<open>b\<close> and \<^verbatim>\<open>c}\<close>: the middle one becomes the span run of the fragment
  that the first one opens.
\<close>

definition span_store :: store where
  "span_store = (\<lambda>run.
     if run = 10 then \<lparr>ID = 1, HasText = True, Text_OpenTag_End = 0, Text_CloseTag_Start = 2\<rparr>
     else if run = 11 then \<lparr>ID = 2, HasText = True, Text_OpenTag_End = 2, Text_CloseTag_Start = 3\<rparr>
     else \<lparr>ID = 3, HasText = True, Text_OpenTag_End = 3, Text_CloseTag_Start = 5\<rparr>)"

definition span_doc :: byte_slice where
  "span_doc = byte_slice_of (''{abc}'') []"

text \<open>
  Correct nesting, as the specification words it: reading the runes with a counter of the
  pairs that are open, an open delimiter adds one, a close delimiter needs an open pair
  and takes one away. \<^const>\<open>None\<close> is a close delimiter with no pair open; the runes are
  well nested when the counter goes from 0 to 0.
\<close>

fun depth :: "Delimiters \<Rightarrow> nat \<Rightarrow> rune list \<Rightarrow> nat option" where
  "depth d k [] = Some k"
| "depth d k (r # rs) =
     (if is_open d r then depth d (Suc k) rs
      else if is_close d r then (case k of 0 \<Rightarrow> None | Suc k' \<Rightarrow> depth d k' rs)
      else depth d k rs)"

definition well_nested :: "Delimiters \<Rightarrow> rune list \<Rightarrow> bool" where
  "well_nested d rs = (depth d 0 rs = Some 0)"

text \<open>
  Where the close delimiters are: the run and the index of each, in scanning order.
\<close>

fun closes_in :: "Delimiters \<Rightarrow> run_ref \<Rightarrow> int \<Rightarrow> rune list \<Rightarrow> (run_ref \<times> int) list" where
  "closes_in d run i [] = []"
| "closes_in d run i (r # rs) =
     (if is_close d r then (run, i) # closes_in d run (i + 1) rs
      else closes_in d run (i + 1) rs)"

definition close_positions ::
  "Delimiters \<Rightarrow> store \<Rightarrow> DocumentRuns \<Rightarrow> byte_slice \<Rightarrow> (run_ref \<times> int) list" where
  "close_positions d h runs docBytes =
     concat (map (\<lambda>run. closes_in d run 0 (runes (GetText h run docBytes))) (WithText h runs))"

text \<open>Where a placeholder was closed: the run of its last fragment and the index before its end.\<close>

definition closed_at :: "Placeholder \<Rightarrow> run_ref \<times> int" where
  "closed_at p = (Run (last (Fragments p)), End (Position (last (Fragments p))) - 1)"

text \<open>The rune at index \<open>i\<close> of a run's text is an open, or a close, delimiter.\<close>

definition open_at :: "Delimiters \<Rightarrow> store \<Rightarrow> byte_slice \<Rightarrow> run_ref \<Rightarrow> int \<Rightarrow> bool" where
  "open_at d h docBytes run i =
     (0 \<le> i \<and> nat i < length (runes (GetText h run docBytes))
      \<and> is_open d (runes (GetText h run docBytes) ! nat i))"

definition close_at :: "Delimiters \<Rightarrow> store \<Rightarrow> byte_slice \<Rightarrow> run_ref \<Rightarrow> int \<Rightarrow> bool" where
  "close_at d h docBytes run i =
     (0 \<le> i \<and> nat i < length (runes (GetText h run docBytes))
      \<and> is_close d (runes (GetText h run docBytes) ! nat i))"

text \<open>One fragment for each span run that a fragment has recorded, over the whole text of that run.\<close>

definition span_fragments :: "store \<Rightarrow> byte_slice \<Rightarrow> PlaceholderFragment \<Rightarrow> PlaceholderFragment list" where
  "span_fragments h docBytes f =
     map (\<lambda>srun. NewPlaceholderFragment
            \<lparr>Start = 0, End = int (length (GetText h srun docBytes))\<rparr> srun)
       (SpanRun f)"

text \<open>
  The structure of a placeholder, as the specification words it: the first fragment starts at
  an open delimiter of its run and the last one ends just after a close delimiter of its
  run; there is one fragment exactly when these are the same run; otherwise the first
  fragment ends where the text of its run ends, the fragments in between are those of
  the recorded span runs, and the last fragment starts at 0.
\<close>

definition placeholder_shape :: "Delimiters \<Rightarrow> store \<Rightarrow> byte_slice \<Rightarrow> Placeholder \<Rightarrow> bool" where
  "placeholder_shape d h docBytes p =
     (let fs = Fragments p; first = hd fs; lst = last fs in
      fs \<noteq> []
      \<and> open_at d h docBytes (Run first) (Start (Position first))
      \<and> close_at d h docBytes (Run lst) (End (Position lst) - 1)
      \<and> (length fs = 1) = (Run first = Run lst)
      \<and> (1 < length fs \<longrightarrow>
           End (Position first) = int (length (GetText h (Run first) docBytes))
           \<and> butlast (tl fs) = span_fragments h docBytes first
           \<and> Start (Position lst) = 0))"

definition shape_ok :: "Delimiters \<Rightarrow> store \<Rightarrow> byte_slice \<Rightarrow> scan_state \<Rightarrow> bool" where
  "shape_ok d h docBytes st =
     (list_all (\<lambda>f. open_at d h docBytes (Run f) (Start (Position f))) (stack st)
      \<and> list_all (placeholder_shape d h docBytes) (placeholders st))"

text \<open>
  The bounds of a fragment's position, and those of a placeholder's fragments: the first
  and the last one are not empty, a fragment in between covers the text of its run, and
  no end is the \<open>-1\<close> that a new open fragment carries.
\<close>

definition pos_ok :: "PlaceholderFragment \<Rightarrow> bool" where
  "pos_ok f = (0 \<le> Start (Position f) \<and> Start (Position f) < End (Position f))"

definition placeholder_bounds :: "store \<Rightarrow> byte_slice \<Rightarrow> Placeholder \<Rightarrow> bool" where
  "placeholder_bounds h docBytes p =
     (let fs = Fragments p in
      fs \<noteq> [] \<and> pos_ok (hd fs) \<and> pos_ok (last fs)
      \<and> list_all (\<lambda>m. Start (Position m) = 0
                        \<and> End (Position m) = int (length (GetText h (Run m) docBytes)))
            (butlast (tl fs))
      \<and> list_all (\<lambda>f. End (Position f) \<noteq> - 1) fs)"

text \<open>
  While the rune at index \<open>k\<close> of the run \<open>cur\<close> is about to be scanned: a fragment on the
  stack was opened in \<open>cur\<close> before \<open>k\<close>, or in one of the runs \<open>seen\<close> before.
\<close>

definition bounds_ok ::
  "store \<Rightarrow> byte_slice \<Rightarrow> run_ref set \<Rightarrow> run_ref \<Rightarrow> int \<Rightarrow> scan_state \<Rightarrow> bool" where
  "bounds_ok h docBytes seen cur k st =
     (list_all (\<lambda>f. (Run f = cur \<and> Start (Position f) < k) \<or> (Run f \<noteq> cur \<and> Run f \<in> seen))
        (stack st)
      \<and> list_all (placeholder_bounds h docBytes) (placeholders st))"

definition stack_seen :: "store \<Rightarrow> byte_slice \<Rightarrow> run_ref set \<Rightarrow> scan_state \<Rightarrow> bool" where
  "stack_seen h docBytes seen st =
     (list_all (\<lambda>f. Run f \<in> seen) (stack st)
      \<and> list_all (placeholder_bounds h docBytes) (placeholders st))"

text \<open>
  One run with the two bytes \<^verbatim>\<open>}{\<close>, to be passed twice in the same sequence.
\<close>

definition alias_store :: store where
  "alias_store = (\<lambda>_. \<lparr>ID = 4, HasText = True, Text_OpenTag_End = 0, Text_CloseTag_Start = 2\<rparr>)"

definition alias_doc :: byte_slice where
  "alias_doc = byte_slice_of (''}{'') []"

text \<open>
  Three runs, \<^verbatim>\<open>U+00E9 {a\<close> (four bytes), \<^verbatim>\<open>b\<close> and \<^verbatim>\<open>c}\<close>.
\<close>

definition accent_store :: store where
  "accent_store = (\<lambda>run.
     if run = 30 then \<lparr>ID = 1, HasText = True, Text_OpenTag_End = 0, Text_CloseTag_Start = 4\<rparr>
     else if run = 31 then \<lparr>ID = 2, HasText = True, Text_OpenTag_End = 4, Text_CloseTag_Start = 5\<rparr>
     else \<lparr>ID = 3, HasText = True, Text_OpenTag_End = 5, Text_CloseTag_Start = 7\<rparr>)"

definition accent_doc :: byte_slice where
  "accent_doc = byte_slice_of ([CHR 0xC3, CHR 0xA9] @ ''{abc}'') []"

text \<open>A text of single bytes: every byte is below \<^verbatim>\<open>0x80\<close>, so it is one rune.\<close>

definition single_byte :: "string \<Rightarrow> bool" where
  "single_byte s = list_all (\<lambda>c. byte c < 0x80) s"

text \<open>A run whose text starts inside the document.\<close>

definition in_document :: "store \<Rightarrow> byte_slice \<Rightarrow> run_ref \<Rightarrow> bool" where
  "in_document h docBytes run =
     (0 \<le> Text_OpenTag_End (h run)
      \<and> Text_OpenTag_End (h run) \<le> int (length (elems docBytes)))"

text \<open>
  Where the span runs of a fragment come from. Of the runs \<open>xs\<close> scanned so far, a
  fragment on the stack has recorded those after its own run that hold no delimiter; a
  placeholder of several fragments has recorded those between the run of its first and
  the run of its last fragment, in the whole sequence \<open>L\<close>. While the run \<open>cur\<close> is
  scanned, a fragment opened in it has recorded nothing.
\<close>

definition recorded_after ::
  "Delimiters \<Rightarrow> store \<Rightarrow> byte_slice \<Rightarrow> run_ref list \<Rightarrow> PlaceholderFragment \<Rightarrow> bool" where
  "recorded_after d h docBytes xs f =
     (\<exists>ys zs. xs = ys @ Run f # zs \<and> SpanRun f = filter (delimiter_free d h docBytes) zs)"

definition recorded_between ::
  "Delimiters \<Rightarrow> store \<Rightarrow> byte_slice \<Rightarrow> run_ref list \<Rightarrow> Placeholder \<Rightarrow> bool" where
  "recorded_between d h docBytes L p =
     (1 < length (Fragments p) \<longrightarrow>
      (\<exists>ys zs rest.
         L = ys @ Run (hd (Fragments p)) # zs @ Run (last (Fragments p)) # rest
         \<and> SpanRun (hd (Fragments p)) = filter (delimiter_free d h docBytes) zs))"

definition order_ok ::
  "Delimiters \<Rightarrow> store \<Rightarrow> byte_slice \<Rightarrow> run_ref list \<Rightarrow> run_ref list \<Rightarrow> scan_state \<Rightarrow> bool" where
  "order_ok d h docBytes L xs st =
     (list_all (recorded_after d h docBytes xs) (stack st)
      \<and> list_all (recorded_between d h docBytes L) (placeholders st))"

definition inner_ok ::
  "Delimiters \<Rightarrow> store \<Rightarrow> byte_slice \<Rightarrow> run_ref list \<Rightarrow> run_ref list \<Rightarrow> run_ref \<Rightarrow> scan_state
     \<Rightarrow> bool" where
  "inner_ok d h docBytes L xs cur st =
     (list_all (\<lambda>f. (Run f = cur \<and> SpanRun f = []) \<or> recorded_after d h docBytes xs f) (stack st)
      \<and> list_all (recorded_between d h docBytes L) (placeholders st))"

text \<open>
  A token is a rune of the input with the place it is at: its run and its index among the
  runes of that run's text. The tokens of a text from index \<open>i\<close> on, and the tokens of all
  the runs that carry text, in scanning order.
\<close>

fun tokens_in :: "run_ref \<Rightarrow> int \<Rightarrow> rune list \<Rightarrow> ((run_ref \<times> int) \<times> rune) list" where
  "tokens_in run i [] = []"
| "tokens_in run i (r # rs) = ((run, i), r) # tokens_in run (i + 1) rs"

definition tokens ::
  "store \<Rightarrow> DocumentRuns \<Rightarrow> byte_slice \<Rightarrow> ((run_ref \<times> int) \<times> rune) list" where
  "tokens h runs docBytes =
     concat (map (\<lambda>run. tokens_in run 0 (runes (GetText h run docBytes))) (WithText h runs))"

text \<open>
  Matching delimiters, as the specification words it: an open delimiter is pushed on a stack
  of open places (its top is the head of the list), a close delimiter is matched with the
  place on top, and a close delimiter that finds the stack empty is skipped. \<open>matched\<close> is
  the pairs of an open and a close place, in the order in which they are closed;
  \<open>stray\<close> is the places of the close delimiters that were skipped; \<open>pending\<close> is the
  stack that is left, the places of the open delimiters that were never closed.
\<close>

fun matched ::
  "Delimiters \<Rightarrow> (run_ref \<times> int) list \<Rightarrow> ((run_ref \<times> int) \<times> rune) list
     \<Rightarrow> ((run_ref \<times> int) \<times> (run_ref \<times> int)) list" where
  "matched d opens [] = []"
| "matched d opens ((pos, r) # ts) =
     (if is_open d r then matched d (pos # opens) ts
      else if is_close d r then
        (case opens of [] \<Rightarrow> matched d [] ts | opn # rest \<Rightarrow> (opn, pos) # matched d rest ts)
      else matched d opens ts)"

fun stray ::
  "Delimiters \<Rightarrow> (run_ref \<times> int) list \<Rightarrow> ((run_ref \<times> int) \<times> rune) list
     \<Rightarrow> (run_ref \<times> int) list" where
  "stray d opens [] = []"
| "stray d opens ((pos, r) # ts) =
     (if is_open d r then stray d (pos # opens) ts
      else if is_close d r then
        (case opens of [] \<Rightarrow> pos # stray d [] ts | opn # rest \<Rightarrow> stray d rest ts)
      else stray d opens ts)"

fun pending ::
  "Delimiters \<Rightarrow> (run_ref \<times> int) list \<Rightarrow> ((run_ref \<times> int) \<times> rune) list
     \<Rightarrow> (run_ref \<times> int) list" where
  "pending d opens [] = opens"
| "pending d opens ((pos, r) # ts) =
     (if is_open d r then pending d (pos # opens) ts
      else if is_close d r then
        (case opens of [] \<Rightarrow> pending d [] ts | opn # rest \<Rightarrow> pending d rest ts)
      else pending d opens ts)"

text \<open>
  Where a placeholder was opened: the run and the start of its first fragment. The same
  for a fragment on the stack.
\<close>

definition opened_at :: "Placeholder \<Rightarrow> run_ref \<times> int" where
  "opened_at p = (Run (hd (Fragments p)), Start (Position (hd (Fragments p))))"

definition open_pos :: "PlaceholderFragment \<Rightarrow> run_ref \<times> int" where
  "open_pos f = (Run f, Start (Position f))"

text \<open>The line that an unmatched close delimiter at a place leaves in the log.\<close>

definition close_line :: "store \<Rightarrow> byte_slice \<Rightarrow> run_ref \<times> int \<Rightarrow> diagnostic" where
  "close_line h docBytes pos =
     UnmatchedClose (ID (h (fst pos))) (GetText h (fst pos) docBytes) (snd pos)"

text \<open>
  What holds of the fragments of a placeholder whatever the runs are: no end is the \<open>-1\<close>
  that a new open fragment carries, no start and no end is negative, a fragment in
  between covers the text of its run, and when there are several fragments the first and
  the last one are not empty.
\<close>

definition fragments_finished :: "store \<Rightarrow> byte_slice \<Rightarrow> Placeholder \<Rightarrow> bool" where
  "fragments_finished h docBytes p =
     (let fs = Fragments p in
      fs \<noteq> []
      \<and> list_all (\<lambda>f. End (Position f) \<noteq> - 1 \<and> 0 \<le> Start (Position f)
                        \<and> 0 \<le> End (Position f)) fs
      \<and> list_all (\<lambda>m. Start (Position m) = 0
                        \<and> End (Position m) = int (length (GetText h (Run m) docBytes)))
            (butlast (tl fs))
      \<and> (1 < length fs \<longrightarrow> pos_ok (hd fs) \<and> pos_ok (last fs)))"

section \<open>Reading a run's text out of the document\<close>

lemma elems_byte_slice_of:
  "int (length b) + int (length sp) < 9223372036854775808 \<Longrightarrow> elems (byte_slice_of b sp) = b"
  by transfer simp

lemma spare_byte_slice_of:
  "int (length b) + int (length sp) < 9223372036854775808 \<Longrightarrow> spare (byte_slice_of b sp) = sp"
  by transfer simp

lemma cap_fits: "int (length (elems b)) + int (length (spare b)) < 9223372036854775808"
  by transfer auto

lemma add64_fits:
  "- 9223372036854775808 \<le> a + b \<Longrightarrow> a + b < 9223372036854775808 \<Longrightarrow> add64 a b = a + b"
  by (simp add: add64_def)

lemma nest_doc_bytes: "elems nest_doc = ''foo{bar{bc}d}baz''" "spare nest_doc = []"
  by (simp_all add: nest_doc_def elems_byte_slice_of spare_byte_slice_of)

lemma heal_doc_bytes: "elems heal_doc = ''}a{b}{''" "spare heal_doc = []"
  by (simp_all add: heal_doc_def elems_byte_slice_of spare_byte_slice_of)

lemma span_doc_bytes: "elems span_doc = ''{abc}''" "spare span_doc = []"
  by (simp_all add: span_doc_def elems_byte_slice_of spare_byte_slice_of)

lemma alias_doc_bytes: "elems alias_doc = ''}{''" "spare alias_doc = []"
  by (simp_all add: alias_doc_def elems_byte_slice_of spare_byte_slice_of)

lemma accent_doc_bytes:
  "elems accent_doc = [CHR 0xC3, CHR 0xA9] @ ''{abc}''" "spare accent_doc = []"
  by (simp_all add: accent_doc_def elems_byte_slice_of spare_byte_slice_of)

lemma slice_GetText:
  assumes "0 \<le> Text_OpenTag_End (h run)" and "0 \<le> a" and "a \<le> b"
    and "b \<le> int (length (GetText h run docBytes))"
    and "Text_OpenTag_End (h run) \<le> int (length (elems docBytes))"
  shows "slice docBytes (add64 (Text_OpenTag_End (h run)) a) (add64 (Text_OpenTag_End (h run)) b)
           = Some (take (nat (b - a)) (drop (nat a) (GetText h run docBytes)))"
proof -
  define s where "s = nat (Text_OpenTag_End (h run))"
  define n where "n = nat (Text_CloseTag_Start (h run) - Text_OpenTag_End (h run))"
  define a' where "a' = nat a"
  define b' where "b' = nat b"
  define e where "e = elems docBytes"
  define sp where "sp = spare docBytes"
  have g: "GetText h run docBytes = take n (drop s e)"
    by (simp add: GetText_def s_def n_def e_def)
  have ab: "a' \<le> b'" "b' \<le> length (take n (drop s e))"
    using assms g by (auto simp: a'_def b'_def)
  moreover have "s \<le> length e"
    using assms by (simp add: s_def e_def)
  ultimately have b1: "b' \<le> n" and b2: "s + b' \<le> length e"
    by auto
  have "take (b' - a') (drop a' (take n (drop s e))) = take (b' - a') (drop (s + a') e)"
    using ab b1 by (simp add: drop_take add.commute min_def)
  also have "\<dots> = take (b' - a') (drop (s + a') (e @ sp))"
    using ab b2 by simp
  finally have tk: "take (b' - a') (drop a' (take n (drop s e)))
                      = take (b' - a') (drop (s + a') (e @ sp))" .
  have le: "Text_OpenTag_End (h run) + b \<le> int (length e)"
    using b2 assms by (simp add: s_def b'_def)
  have fit: "int (length e) + int (length sp) < 9223372036854775808"
    unfolding e_def sp_def by (rule cap_fits)
  have pa: "add64 (Text_OpenTag_End (h run)) a = Text_OpenTag_End (h run) + a"
    and pb: "add64 (Text_OpenTag_End (h run)) b = Text_OpenTag_End (h run) + b"
    using assms le fit by (auto intro!: add64_fits)
  have "nat (Text_OpenTag_End (h run) + a) = s + a'"
    and "nat (Text_OpenTag_End (h run) + b - (Text_OpenTag_End (h run) + a)) = b' - a'"
    and "nat (b - a) = b' - a'"
    using assms by (auto simp: s_def a'_def b'_def nat_add_distrib nat_diff_distrib)
  then show ?thesis
    using assms le tk by (simp add: slice_def pa pb g a'_def e_def [symmetric] sp_def [symmetric])
qed

lemma GetText_bound:
  assumes "GetText h run docBytes \<noteq> []" and "0 \<le> Text_OpenTag_End (h run)"
  shows "Text_OpenTag_End (h run) \<le> int (length (elems docBytes))"
proof -
  have "drop (nat (Text_OpenTag_End (h run))) (elems docBytes) \<noteq> []"
    using assms(1) by (auto simp: GetText_def)
  then show ?thesis using assms(2) by simp
qed

lemma runes_nest: "runes ''foo{bar{bc}d}baz'' = [102, 111, 111, 123, 98, 97, 114, 123, 98, 99, 125, 100, 125, 98, 97, 122]"
  by (simp add: byte_def)

lemma scan_nest:
  "scan_runes default_delimiters h docBytes run 0
     [102, 111, 111, 123, 98, 97, 114, 123, 98, 99, 125, 100, 125, 98, 97, 122]
     \<lparr>stack = [], placeholders = [], hasDelimiter = False, log = []\<rparr>
   = \<lparr>stack = [],
      placeholders =
        [\<lparr>Fragments = [\<lparr>Position = \<lparr>Start = 7, End = 11\<rparr>, Run = run, SpanRun = []\<rparr>]\<rparr>,
         \<lparr>Fragments = [\<lparr>Position = \<lparr>Start = 3, End = 13\<rparr>, Run = run, SpanRun = []\<rparr>]\<rparr>],
      hasDelimiter = True, log = []\<rparr>"
  by (simp add: scan_rune_def default_delimiters_def NewPlaceholderFragment_def)

section \<open>Nesting within one run\<close>

text \<open>
  C4: a single run whose text is \<^verbatim>\<open>foo{bar{bc}d}baz\<close>, wherever it lies in the document,
  gives under the default delimiters exactly two placeholders; their texts are
  \<^verbatim>\<open>{bc}\<close> and \<^verbatim>\<open>{bar{bc}d}\<close> in this order, the inner one first, and the outer text
  holds the inner delimiters.
\<close>

theorem nesting_in_one_run:
  assumes "HasText (h run)" and "0 \<le> Text_OpenTag_End (h run)"
    and "GetText h run docBytes = ''foo{bar{bc}d}baz''"
  shows "map (\<lambda>p. Text h p docBytes)
           (fst (fst (ParsePlaceholders default_delimiters h [run] docBytes)))
           = [Some ''{bc}'', Some ''{bar{bc}d}'']"
proof -
  have sr: "scan_run default_delimiters h docBytes initial_state run
     = \<lparr>stack = [],
      placeholders =
        [\<lparr>Fragments = [\<lparr>Position = \<lparr>Start = 7, End = 11\<rparr>, Run = run, SpanRun = []\<rparr>]\<rparr>,
         \<lparr>Fragments = [\<lparr>Position = \<lparr>Start = 3, End = 13\<rparr>, Run = run, SpanRun = []\<rparr>]\<rparr>],
      hasDelimiter = True, log = []\<rparr>"
    unfolding scan_run_def assms(3) runes_nest initial_state_def
    by (simp only: scan_state.simps scan_state.update_convs scan_nest Let_def) simp
  have ps: "fst (fst (ParsePlaceholders default_delimiters h [run] docBytes))
     = [\<lparr>Fragments = [\<lparr>Position = \<lparr>Start = 7, End = 11\<rparr>, Run = run, SpanRun = []\<rparr>]\<rparr>,
        \<lparr>Fragments = [\<lparr>Position = \<lparr>Start = 3, End = 13\<rparr>, Run = run, SpanRun = []\<rparr>]\<rparr>]"
    using assms(1) by (simp add: ParsePlaceholders_def scan_all_def WithText_def sr)
  have le: "Text_OpenTag_End (h run) \<le> int (length (elems docBytes))"
    using GetText_bound [of h run docBytes] assms by simp
  have s1: "slice docBytes (add64 (Text_OpenTag_End (h run)) 7)
              (add64 (Text_OpenTag_End (h run)) 11)
              = Some ''{bc}''"
    using slice_GetText [of h run 7 11 docBytes] assms le by simp
  have s2: "slice docBytes (add64 (Text_OpenTag_End (h run)) 3)
              (add64 (Text_OpenTag_End (h run)) 13)
              = Some ''{bar{bc}d}''"
    using slice_GetText [of h run 3 13 docBytes] assms le by simp
  show ?thesis
    by (simp add: ps Text_def s1 s2)
qed

theorem nesting_in_one_run_witness:
  "map (\<lambda>p. Text nest_store p nest_doc)
     (fst (fst (ParsePlaceholders default_delimiters nest_store [0] nest_doc)))
     = [Some ''{bc}'', Some ''{bar{bc}d}'']"
  by (rule nesting_in_one_run) (simp_all add: nest_store_def nest_doc_bytes GetText_def)

section \<open>The delimiter utilities\<close>

lemma byte_chr: "n < 256 \<Longrightarrow> byte (chr n) = n"
  by (simp add: byte_def chr_def)

lemma EncodeRune_ascii: "0 \<le> r \<Longrightarrow> r < 0x80 \<Longrightarrow> EncodeRune r = [chr (nat r)]"
  by (simp add: EncodeRune_def Let_def)

lemma IsDelimitedPlaceholder_iff:
  "IsDelimitedPlaceholder d s
     = (s \<noteq> [] \<and> int (byte (hd s)) = OpenDelimiter d \<and> int (byte (last s)) = CloseDelimiter d)"
  by (cases s) (auto simp: IsDelimitedPlaceholder_def Let_def hd_conv_nth last_conv_nth)

text \<open>
  C7, as amended: when both delimiters are single bytes (below \<^verbatim>\<open>0x80\<close>) and the string
  is not delimited and neither begins nor ends with a delimiter byte, removing the
  delimiters that \<^verbatim>\<open>AddPlaceholderDelimiter\<close> added gives the string back.
\<close>

theorem remove_add_round_trip:
  assumes od: "0 \<le> OpenDelimiter d" "OpenDelimiter d < 0x80"
    and cd: "0 \<le> CloseDelimiter d" "CloseDelimiter d < 0x80"
    and nd: "\<not> IsDelimitedPlaceholder d s"
    and ends: "s \<noteq> [] \<Longrightarrow> \<not> delimiter_byte d (hd s) \<and> \<not> delimiter_byte d (last s)"
  shows "RemovePlaceholderDelimiter d (AddPlaceholderDelimiter d s) = s"
proof -
  define oc where "oc = chr (nat (OpenDelimiter d))"
  define cc where "cc = chr (nat (CloseDelimiter d))"
  define P where "P = (\<lambda>c. c \<in> set [oc, cc])"
  have bo: "int (byte oc) = OpenDelimiter d" and bc: "int (byte cc) = CloseDelimiter d"
    using od cd by (simp_all add: oc_def cc_def byte_chr)
  have add: "AddPlaceholderDelimiter d s = oc # s @ [cc]"
    using nd od cd by (simp add: AddPlaceholderDelimiter_def EncodeRune_ascii oc_def cc_def)
  have del: "IsDelimitedPlaceholder d (oc # s @ [cc])"
    by (simp add: IsDelimitedPlaceholder_iff bo bc)
  have cut: "EncodeRune (OpenDelimiter d) @ EncodeRune (CloseDelimiter d) = [oc, cc]"
    using od cd by (simp add: EncodeRune_ascii oc_def cc_def)
  have ascii: "list_all (\<lambda>c. byte c < 0x80) [oc, cc]"
    using od cd bo bc by simp
  have Pd: "P c \<Longrightarrow> delimiter_byte d c" for c
    using bo bc by (auto simp: P_def delimiter_byte_def)
  have right: "trimRightASCII (oc # s @ [cc]) [oc, cc] = (if s = [] then [] else oc # s)"
  proof (cases "s = []")
    case True
    then show ?thesis by (simp add: trimRightASCII_def)
  next
    case False
    then obtain ys y where s: "s = ys @ [y]" by (cases s rule: rev_exhaust) auto
    then have "\<not> P y" using ends Pd by fastforce
    then have "dropWhile P (rev s @ [oc]) = rev s @ [oc]"
      by (simp add: s)
    then show ?thesis using False by (simp add: trimRightASCII_def P_def)
  qed
  have left: "trimLeftASCII (if s = [] then [] else oc # s) [oc, cc] = s"
  proof (cases "s = []")
    case True
    then show ?thesis by (simp add: trimLeftASCII_def)
  next
    case False
    then have "\<not> P (hd s)" using ends Pd by blast
    then have "dropWhile P s = s" using False by (cases s) auto
    then show ?thesis using False by (simp add: trimLeftASCII_def P_def)
  qed
  have "Trim (oc # s @ [cc]) [oc, cc] = s"
    using ascii by (simp add: Trim_def right left)
  then show ?thesis
    by (simp add: RemovePlaceholderDelimiter_def add del cut)
qed

theorem remove_add_round_trip_witness:
  "RemovePlaceholderDelimiter default_delimiters
     (AddPlaceholderDelimiter default_delimiters ''abc'') = ''abc''"
  by (rule remove_add_round_trip)
    (simp_all add: default_delimiters_def delimiter_byte_def byte_def IsDelimitedPlaceholder_iff)

text \<open>
  The round trip fails for some strings that are not delimited: \<^verbatim>\<open>{a\<close> is wrapped
  as \<^verbatim>\<open>{{a}\<close>, and \<^verbatim>\<open>strings.Trim\<close> then strips every leading and trailing delimiter,
  the string's own brace too.
\<close>

theorem remove_add_counterexample:
  "\<not> IsDelimitedPlaceholder default_delimiters ''{a''
   \<and> RemovePlaceholderDelimiter default_delimiters
       (AddPlaceholderDelimiter default_delimiters ''{a'') = ''a''
   \<and> RemovePlaceholderDelimiter default_delimiters
       (AddPlaceholderDelimiter default_delimiters ''{a'') \<noteq> ''{a''"
  by code_simp

text \<open>
  C8: \<^verbatim>\<open>IsDelimitedPlaceholder\<close> compares bytes, not runes. With the delimiters
  \<^verbatim>\<open>U+00AB\<close> and \<^verbatim>\<open>U+00BB\<close>, the string of the three runes \<^verbatim>\<open>U+00AB\<close>, \<^verbatim>\<open>x\<close>, \<^verbatim>\<open>U+00BB\<close>
  begins with the open delimiter and ends with the close delimiter, and the function
  returns false: its first byte is \<^verbatim>\<open>0xC2\<close>.
\<close>

theorem IsDelimitedPlaceholder_compares_bytes:
  "runes [CHR 0xC2, CHR 0xAB, CHR ''x'', CHR 0xC2, CHR 0xBB] = [0xAB, 0x78, 0xBB]
   \<and> OpenDelimiter guillemets = 0xAB \<and> CloseDelimiter guillemets = 0xBB
   \<and> IsDelimitedPlaceholder guillemets [CHR 0xC2, CHR 0xAB, CHR ''x'', CHR 0xC2, CHR 0xBB] = False"
  by code_simp

section \<open>The scanner, one rune at a time\<close>

lemma scan_rune_open:
  "is_open d r \<Longrightarrow> scan_rune d h docBytes run i r st
     = st\<lparr>hasDelimiter := True,
          stack := stack st @ [NewPlaceholderFragment \<lparr>Start = i, End = - 1\<rparr> run]\<rparr>"
  by (simp add: scan_rune_def is_open_def)

lemma scan_rune_unmatched:
  "is_close d r \<Longrightarrow> stack st = [] \<Longrightarrow> scan_rune d h docBytes run i r st
     = st\<lparr>log := log st @ [UnmatchedClose (ID (h run)) (GetText h run docBytes) i]\<rparr>"
  by (simp add: scan_rune_def is_close_def)

lemma scan_rune_close:
  "is_close d r \<Longrightarrow> stack st = fs @ [f] \<Longrightarrow> scan_rune d h docBytes run i r st
     = st\<lparr>hasDelimiter := True, stack := fs,
          placeholders := placeholders st @ [emitted h docBytes run i f]\<rparr>"
  by (simp add: scan_rune_def is_close_def emitted_def Let_def)

lemma scan_rune_other:
  "\<not> is_open d r \<Longrightarrow> \<not> is_close d r \<Longrightarrow> scan_rune d h docBytes run i r st = st"
  by (simp add: scan_rune_def is_open_def is_close_def)

lemma scan_rune_cases:
  obtains (push) "is_open d r"
      "scan_rune d h docBytes run i r st
         = st\<lparr>hasDelimiter := True,
              stack := stack st @ [NewPlaceholderFragment \<lparr>Start = i, End = - 1\<rparr> run]\<rparr>"
  | (unmatched) "is_close d r" "stack st = []"
      "scan_rune d h docBytes run i r st
         = st\<lparr>log := log st @ [UnmatchedClose (ID (h run)) (GetText h run docBytes) i]\<rparr>"
  | (pop) fs f where "is_close d r" "stack st = fs @ [f]"
      "scan_rune d h docBytes run i r st
         = st\<lparr>hasDelimiter := True, stack := fs,
              placeholders := placeholders st @ [emitted h docBytes run i f]\<rparr>"
  | (other) "\<not> is_open d r" "\<not> is_close d r"
      "scan_rune d h docBytes run i r st = st"
proof (cases "is_open d r")
  case True
  then show ?thesis using push scan_rune_open by blast
next
  case no: False
  show ?thesis
  proof (cases "is_close d r")
    case False
    then show ?thesis using other no scan_rune_other by blast
  next
    case cl: True
    show ?thesis
    proof (cases "stack st" rule: rev_exhaust)
      case Nil
      then show ?thesis using unmatched cl scan_rune_unmatched by blast
    next
      case (snoc fs f)
      then show ?thesis using pop cl scan_rune_close by blast
    qed
  qed
qed

section \<open>Every delimiter ends in a placeholder or in a diagnostic\<close>

lemma is_close_not_open: "is_close d r \<Longrightarrow> \<not> is_open d r"
  by (simp add: is_close_def is_open_def)

lemma is_open_not_close: "is_open d r \<Longrightarrow> \<not> is_close d r"
  by (simp add: is_close_def is_open_def)

lemma scan_rune_counts:
  fixes d h docBytes run i r st
  defines "st' \<equiv> scan_rune d h docBytes run i r st"
  shows "length (placeholders st') + length (stack st')
           = length (placeholders st) + length (stack st) + (if is_open d r then 1 else 0)"
    and "length (placeholders st') + length (filter is_unmatched_close (log st'))
           = length (placeholders st) + length (filter is_unmatched_close (log st))
             + (if is_close d r then 1 else 0)"
    and "filter is_unmatched_open (log st') = filter is_unmatched_open (log st)"
proof -
  show "length (placeholders st') + length (stack st')
           = length (placeholders st) + length (stack st) + (if is_open d r then 1 else 0)"
    unfolding st'_def
    by (cases rule: scan_rune_cases [of d r h docBytes run i st])
      (simp_all add: is_close_not_open)
  show "length (placeholders st') + length (filter is_unmatched_close (log st'))
           = length (placeholders st) + length (filter is_unmatched_close (log st))
             + (if is_close d r then 1 else 0)"
    unfolding st'_def
    by (cases rule: scan_rune_cases [of d r h docBytes run i st])
      (simp_all add: is_close_not_open is_open_not_close)
  show "filter is_unmatched_open (log st') = filter is_unmatched_open (log st)"
    unfolding st'_def
    by (cases rule: scan_rune_cases [of d r h docBytes run i st]) simp_all
qed

lemma scan_runes_counts:
  fixes d h docBytes run i rs st
  defines "st' \<equiv> scan_runes d h docBytes run i rs st"
  shows "length (placeholders st') + length (stack st')
           = length (placeholders st) + length (stack st) + length (filter (is_open d) rs)"
    and "length (placeholders st') + length (filter is_unmatched_close (log st'))
           = length (placeholders st) + length (filter is_unmatched_close (log st))
             + length (filter (is_close d) rs)"
    and "filter is_unmatched_open (log st') = filter is_unmatched_open (log st)"
proof -
  show "length (placeholders st') + length (stack st')
           = length (placeholders st) + length (stack st) + length (filter (is_open d) rs)"
    unfolding st'_def
    by (induction rs arbitrary: st i) (simp_all add: scan_rune_counts(1))
  show "length (placeholders st') + length (filter is_unmatched_close (log st'))
           = length (placeholders st) + length (filter is_unmatched_close (log st))
             + length (filter (is_close d) rs)"
    unfolding st'_def
    by (induction rs arbitrary: st i) (simp_all add: scan_rune_counts(2))
  show "filter is_unmatched_open (log st') = filter is_unmatched_open (log st)"
    unfolding st'_def
    by (induction rs arbitrary: st i) (simp_all add: scan_rune_counts(3))
qed

lemma scan_run_counts:
  fixes d h docBytes run st
  defines "st' \<equiv> scan_run d h docBytes st run"
  shows "length (placeholders st') + length (stack st')
           = length (placeholders st) + length (stack st)
             + length (filter (is_open d) (runes (GetText h run docBytes)))"
    and "length (placeholders st') + length (filter is_unmatched_close (log st'))
           = length (placeholders st) + length (filter is_unmatched_close (log st))
             + length (filter (is_close d) (runes (GetText h run docBytes)))"
    and "filter is_unmatched_open (log st') = filter is_unmatched_open (log st)"
proof -
  let ?st0 = "st\<lparr>hasDelimiter := False\<rparr>"
  let ?st1 = "scan_runes d h docBytes run 0 (runes (GetText h run docBytes)) ?st0"
  have eq: "placeholders st' = placeholders ?st1" "length (stack st') = length (stack ?st1)"
    "log st' = log ?st1"
    unfolding st'_def scan_run_def Let_def by simp_all
  show "length (placeholders st') + length (stack st')
           = length (placeholders st) + length (stack st)
             + length (filter (is_open d) (runes (GetText h run docBytes)))"
    unfolding eq using scan_runes_counts(1) [of d h docBytes run 0 _ ?st0] by simp
  show "length (placeholders st') + length (filter is_unmatched_close (log st'))
           = length (placeholders st) + length (filter is_unmatched_close (log st))
             + length (filter (is_close d) (runes (GetText h run docBytes)))"
    unfolding eq using scan_runes_counts(2) [of d h docBytes run 0 _ ?st0] by simp
  show "filter is_unmatched_open (log st') = filter is_unmatched_open (log st)"
    unfolding eq using scan_runes_counts(3) [of d h docBytes run 0 _ ?st0] by simp
qed

lemma scan_fold_counts:
  fixes d h docBytes rl st
  defines "st' \<equiv> foldl (scan_run d h docBytes) st rl"
  defines "rs \<equiv> concat (map (\<lambda>run. runes (GetText h run docBytes)) rl)"
  shows "length (placeholders st') + length (stack st')
           = length (placeholders st) + length (stack st) + length (filter (is_open d) rs)"
    and "length (placeholders st') + length (filter is_unmatched_close (log st'))
           = length (placeholders st) + length (filter is_unmatched_close (log st))
             + length (filter (is_close d) rs)"
    and "filter is_unmatched_open (log st') = filter is_unmatched_open (log st)"
proof -
  show "length (placeholders st') + length (stack st')
           = length (placeholders st) + length (stack st) + length (filter (is_open d) rs)"
    unfolding st'_def rs_def
    by (induction rl arbitrary: st) (simp_all add: scan_run_counts(1))
  show "length (placeholders st') + length (filter is_unmatched_close (log st'))
           = length (placeholders st) + length (filter is_unmatched_close (log st))
             + length (filter (is_close d) rs)"
    unfolding st'_def rs_def
    by (induction rl arbitrary: st) (simp_all add: scan_run_counts(2))
  show "filter is_unmatched_open (log st') = filter is_unmatched_open (log st)"
    unfolding st'_def
    by (induction rl arbitrary: st) (simp_all add: scan_run_counts(3))
qed

lemma scan_all_counts:
  fixes d h runs docBytes
  defines "st \<equiv> scan_all d h runs docBytes"
  shows "length (placeholders st) + length (stack st)
           = length (filter (is_open d) (all_runes h runs docBytes))"
    and "length (placeholders st) + length (filter is_unmatched_close (log st))
           = length (filter (is_close d) (all_runes h runs docBytes))"
    and "filter is_unmatched_open (log st) = []"
  unfolding st_def scan_all_def all_runes_def
  using scan_fold_counts [of d h docBytes initial_state "WithText h runs"]
  by (simp_all add: initial_state_def)

section \<open>The log is only written\<close>





section \<open>Span runs hold no delimiter\<close>

lemma spans_free_New [simp]: "spans_free d h docBytes (NewPlaceholderFragment pos run)"
  by (simp add: spans_free_def NewPlaceholderFragment_def)

lemma spans_free_Position [simp]:
  "spans_free d h docBytes (f\<lparr>Position := pos\<rparr>) = spans_free d h docBytes f"
  by (simp add: spans_free_def)

lemma emitted_spans_free:
  "spans_free d h docBytes f \<Longrightarrow>
   list_all (spans_free d h docBytes) (Fragments (emitted h docBytes run i f))"
  by (simp add: emitted_def list_all_iff)

lemma scan_rune_spans_ok:
  assumes "spans_ok d h docBytes st"
  shows "spans_ok d h docBytes (scan_rune d h docBytes run i r st)"
proof (cases rule: scan_rune_cases [of d r h docBytes run i st])
  case push
  then show ?thesis using assms by (simp add: spans_ok_def)
next
  case unmatched
  then show ?thesis using assms by (simp add: spans_ok_def)
next
  case (pop fs f)
  then show ?thesis using assms by (simp add: spans_ok_def emitted_spans_free)
next
  case other
  then show ?thesis using assms by simp
qed

lemma scan_runes_spans_ok:
  "spans_ok d h docBytes st \<Longrightarrow> spans_ok d h docBytes (scan_runes d h docBytes run i rs st)"
  by (induction rs arbitrary: st i) (simp_all add: scan_rune_spans_ok)

text \<open>
  A run that leaves the flag false has pushed and popped nothing, and each of its close
  delimiters met an empty stack.
\<close>

lemma scan_runes_flag_false:
  assumes "\<not> hasDelimiter (scan_runes d h docBytes run i rs st)"
  shows "stack (scan_runes d h docBytes run i rs st) = stack st
         \<and> \<not> hasDelimiter st
         \<and> list_all (\<lambda>r. \<not> is_open d r) rs
         \<and> (list_ex (is_close d) rs \<longrightarrow> stack st = [])"
  using assms
proof (induction rs arbitrary: st i)
  case Nil
  then show ?case by simp
next
  case (Cons r rs)
  let ?st1 = "scan_rune d h docBytes run i r st"
  from Cons.prems have "\<not> hasDelimiter (scan_runes d h docBytes run (i + 1) rs ?st1)"
    by simp
  from Cons.IH [OF this]
  have ih: "stack (scan_runes d h docBytes run (i + 1) rs ?st1) = stack ?st1"
    "\<not> hasDelimiter ?st1" "list_all (\<lambda>r. \<not> is_open d r) rs"
    "list_ex (is_close d) rs \<longrightarrow> stack ?st1 = []"
    by simp_all
  show ?case
  proof (cases rule: scan_rune_cases [of d r h docBytes run i st])
    case push
    then show ?thesis using ih(2) by simp
  next
    case unmatched
    then show ?thesis using ih by (simp add: is_close_not_open)
  next
    case (pop fs f)
    then show ?thesis using ih(2) by simp
  next
    case other
    then show ?thesis using ih by simp
  qed
qed

lemma flag_false_delimiter_free:
  assumes "\<not> hasDelimiter (scan_runes d h docBytes run 0 (runes (GetText h run docBytes)) st)"
    and "stack st \<noteq> []"
  shows "delimiter_free d h docBytes run"
proof -
  let ?rs = "runes (GetText h run docBytes)"
  from scan_runes_flag_false [OF assms(1)] assms(2)
  have "list_all (\<lambda>r. \<not> is_open d r) ?rs" and "\<not> list_ex (is_close d) ?rs"
    by auto
  then show ?thesis
    by (auto simp: delimiter_free_def list_all_iff list_ex_iff is_open_def is_close_def)
qed

lemma scan_run_spans_ok:
  assumes "spans_ok d h docBytes st"
  shows "spans_ok d h docBytes (scan_run d h docBytes st run)"
proof -
  let ?st0 = "st\<lparr>hasDelimiter := False\<rparr>"
  let ?st1 = "scan_runes d h docBytes run 0 (runes (GetText h run docBytes)) ?st0"
  have ok0: "spans_ok d h docBytes ?st0" using assms by (simp add: spans_ok_def)
  have ok1: "spans_ok d h docBytes ?st1" by (rule scan_runes_spans_ok [OF ok0])
  show ?thesis
  proof (cases "hasDelimiter ?st1")
    case True
    then show ?thesis using ok1 by (simp add: scan_run_def Let_def)
  next
    case False
    have st: "stack ?st1 = stack st"
      using scan_runes_flag_false [OF False] by simp
    show ?thesis
    proof (cases "stack st = []")
      case True
      then show ?thesis using ok1 False st by (simp add: scan_run_def Let_def spans_ok_def)
    next
      case ne: False
      have "delimiter_free d h docBytes run"
        using flag_false_delimiter_free [OF False] ne by simp
      then show ?thesis using ok1 False
        by (simp add: scan_run_def Let_def spans_ok_def spans_free_def list_all_iff)
    qed
  qed
qed

lemma scan_fold_spans_ok:
  "spans_ok d h docBytes st \<Longrightarrow> spans_ok d h docBytes (foldl (scan_run d h docBytes) st rl)"
  by (induction rl arbitrary: st) (simp_all add: scan_run_spans_ok)

lemma scan_all_spans_ok: "spans_ok d h docBytes (scan_all d h runs docBytes)"
  unfolding scan_all_def
  by (rule scan_fold_spans_ok) (simp add: spans_ok_def initial_state_def)

text \<open>
  C9: whatever fragment the scan has made, one still on the stack after the last run or
  one of a returned placeholder, every run in its span runs has a text with no open and
  no close delimiter in it.
\<close>

theorem span_runs_delimiter_free:
  "\<forall>f \<in> set (stack (scan_all d h runs docBytes))
         \<union> (\<Union>p \<in> set (fst (fst (ParsePlaceholders d h runs docBytes))). set (Fragments p)).
     \<forall>run \<in> set (SpanRun f).
       \<forall>r \<in> set (runes (GetText h run docBytes)). r \<noteq> OpenDelimiter d \<and> r \<noteq> CloseDelimiter d"
proof (intro ballI)
  fix f run r
  let ?st = "scan_all d h runs docBytes"
  assume f: "f \<in> set (stack ?st)
         \<union> (\<Union>p \<in> set (fst (fst (ParsePlaceholders d h runs docBytes))). set (Fragments p))"
    and run: "run \<in> set (SpanRun f)" and r: "r \<in> set (runes (GetText h run docBytes))"
  have ok: "spans_ok d h docBytes ?st" by (rule scan_all_spans_ok)
  have ps: "fst (fst (ParsePlaceholders d h runs docBytes)) = placeholders ?st"
    by (simp add: ParsePlaceholders_def Let_def)
  have "spans_free d h docBytes f"
  proof (cases "f \<in> set (stack ?st)")
    case True
    then show ?thesis using ok by (simp add: spans_ok_def list_all_iff)
  next
    case False
    then obtain p where "p \<in> set (placeholders ?st)" and "f \<in> set (Fragments p)"
      using f ps by auto
    then show ?thesis using ok by (simp add: spans_ok_def list_all_iff)
  qed
  then have "delimiter_free d h docBytes run"
    using run by (simp add: spans_free_def list_all_iff)
  then show "r \<noteq> OpenDelimiter d \<and> r \<noteq> CloseDelimiter d"
    using r by (simp add: delimiter_free_def list_all_iff)
qed

lemma span_parse:
  "fst (fst (ParsePlaceholders default_delimiters span_store [10, 11, 12] span_doc))
     = [\<lparr>Fragments =
          [\<lparr>Position = \<lparr>Start = 0, End = 2\<rparr>, Run = 10, SpanRun = [11]\<rparr>,
           \<lparr>Position = \<lparr>Start = 0, End = 1\<rparr>, Run = 11, SpanRun = []\<rparr>,
           \<lparr>Position = \<lparr>Start = 0, End = 2\<rparr>, Run = 12, SpanRun = []\<rparr>]\<rparr>]"
  by (simp add: ParsePlaceholders_def scan_all_def WithText_def span_store_def span_doc_bytes
      scan_run_def GetText_def byte_def scan_rune_def default_delimiters_def initial_state_def
      NewPlaceholderFragment_def Let_def)

theorem span_runs_delimiter_free_witness:
  "11 \<in> set (SpanRun (hd (Fragments (hd (fst (fst
       (ParsePlaceholders default_delimiters span_store [10, 11, 12] span_doc)))))))
   \<and> 0x62 \<in> set (runes (GetText span_store 11 span_doc))
   \<and> 0x62 \<noteq> OpenDelimiter default_delimiters
   \<and> 0x62 \<noteq> CloseDelimiter default_delimiters"
proof -
  note th = span_runs_delimiter_free [where d = default_delimiters and h = span_store
      and runs = "[10, 11, 12]" and docBytes = span_doc]
  let ?f = "hd (Fragments (hd (fst (fst
       (ParsePlaceholders default_delimiters span_store [10, 11, 12] span_doc)))))"
  have f: "?f \<in> set (stack (scan_all default_delimiters span_store [10, 11, 12] span_doc))
         \<union> (\<Union>p \<in> set (fst (fst
             (ParsePlaceholders default_delimiters span_store [10, 11, 12] span_doc))).
             set (Fragments p))"
    by (simp add: span_parse)
  have s: "11 \<in> set (SpanRun ?f)"
    by (simp add: span_parse)
  have r: "0x62 \<in> set (runes (GetText span_store 11 span_doc))"
    by (simp add: span_store_def span_doc_bytes GetText_def byte_def)
  from th f s r
  have "0x62 \<noteq> OpenDelimiter default_delimiters \<and> 0x62 \<noteq> CloseDelimiter default_delimiters"
    by blast
  with s r show ?thesis by blast
qed

section \<open>Well-nested input\<close>

lemma closed_at_emitted: "closed_at (emitted h docBytes run i f) = (run, i)"
  by (simp add: closed_at_def emitted_def NewPlaceholderFragment_def)

lemma length_closes_in: "length (closes_in d run i rs) = length (filter (is_close d) rs)"
  by (induction rs arbitrary: i) simp_all

lemma depth_append:
  "depth d k (xs @ ys) = (case depth d k xs of None \<Rightarrow> None | Some k' \<Rightarrow> depth d k' ys)"
  by (induction xs arbitrary: k) (auto split: nat.splits)

lemma scan_runes_nested:
  assumes "depth d (length (stack st)) rs = Some k"
  shows "length (stack (scan_runes d h docBytes run i rs st)) = k
       \<and> map closed_at (placeholders (scan_runes d h docBytes run i rs st))
           = map closed_at (placeholders st) @ closes_in d run i rs
       \<and> log (scan_runes d h docBytes run i rs st) = log st"
  using assms
proof (induction rs arbitrary: st i)
  case Nil
  then show ?case by simp
next
  case (Cons r rs)
  show ?case
  proof (cases rule: scan_rune_cases [of d r h docBytes run i st])
    case push
    with Cons.prems
    have "depth d (length (stack (scan_rune d h docBytes run i r st))) rs = Some k"
      by simp
    from Cons.IH [OF this] push show ?thesis
      by (simp add: is_open_not_close)
  next
    case unmatched
    with Cons.prems show ?thesis by (simp add: is_close_not_open)
  next
    case (pop fs f)
    with Cons.prems
    have "depth d (length (stack (scan_rune d h docBytes run i r st))) rs = Some k"
      by (simp add: is_close_not_open)
    from Cons.IH [OF this] pop show ?thesis
      by (simp add: closed_at_emitted)
  next
    case other
    with Cons.prems
    have "depth d (length (stack (scan_rune d h docBytes run i r st))) rs = Some k"
      by simp
    from Cons.IH [OF this] other show ?thesis
      by simp
  qed
qed

lemma scan_run_nested:
  assumes "depth d (length (stack st)) (runes (GetText h run docBytes)) = Some k"
  shows "length (stack (scan_run d h docBytes st run)) = k
       \<and> map closed_at (placeholders (scan_run d h docBytes st run))
           = map closed_at (placeholders st) @ closes_in d run 0 (runes (GetText h run docBytes))
       \<and> log (scan_run d h docBytes st run) = log st"
proof -
  let ?st0 = "st\<lparr>hasDelimiter := False\<rparr>"
  have "depth d (length (stack ?st0)) (runes (GetText h run docBytes)) = Some k"
    using assms by simp
  from scan_runes_nested [OF this, of h docBytes run 0]
  show ?thesis by (simp add: scan_run_def Let_def)
qed

lemma scan_fold_nested:
  assumes "depth d (length (stack st))
             (concat (map (\<lambda>run. runes (GetText h run docBytes)) rl)) = Some k"
  shows "length (stack (foldl (scan_run d h docBytes) st rl)) = k
       \<and> map closed_at (placeholders (foldl (scan_run d h docBytes) st rl))
           = map closed_at (placeholders st)
             @ concat (map (\<lambda>run. closes_in d run 0 (runes (GetText h run docBytes))) rl)
       \<and> log (foldl (scan_run d h docBytes) st rl) = log st"
  using assms
proof (induction rl arbitrary: st)
  case Nil
  then show ?case by simp
next
  case (Cons run rl)
  from Cons.prems obtain k1 where
    k1: "depth d (length (stack st)) (runes (GetText h run docBytes)) = Some k1"
    and k: "depth d k1 (concat (map (\<lambda>run. runes (GetText h run docBytes)) rl)) = Some k"
    by (auto simp: depth_append split: option.splits)
  note one = scan_run_nested [OF k1]
  from one k
  have "depth d (length (stack (scan_run d h docBytes st run)))
          (concat (map (\<lambda>run. runes (GetText h run docBytes)) rl)) = Some k"
    by simp
  from Cons.IH [OF this] one show ?case by simp
qed

text \<open>
  C1: when the delimiters of all the runs together are well nested, \<open>N\<close> pairs with none
  left over, \<^verbatim>\<open>ParsePlaceholders\<close> returns \<open>N\<close> placeholders (as many as there are open
  delimiters, and as many as there are close delimiters); the places where they were
  closed are, in the order of the returned list, the places of the close delimiters in
  scanning order; and nothing is logged.
\<close>

theorem nested_pairs_give_placeholders:
  assumes "well_nested d (all_runes h runs docBytes)"
  shows "length (fst (fst (ParsePlaceholders d h runs docBytes)))
           = length (filter (is_open d) (all_runes h runs docBytes))
       \<and> length (fst (fst (ParsePlaceholders d h runs docBytes)))
           = length (filter (is_close d) (all_runes h runs docBytes))
       \<and> map closed_at (fst (fst (ParsePlaceholders d h runs docBytes)))
           = close_positions d h runs docBytes
       \<and> snd (ParsePlaceholders d h runs docBytes) = []"
proof -
  let ?st = "scan_all d h runs docBytes"
  have "depth d (length (stack initial_state))
          (concat (map (\<lambda>run. runes (GetText h run docBytes)) (WithText h runs))) = Some 0"
    using assms by (simp add: well_nested_def all_runes_def initial_state_def)
  from scan_fold_nested [OF this]
  have st: "stack ?st = []" and cl: "map closed_at (placeholders ?st) = close_positions d h runs docBytes"
    and lg: "log ?st = []"
    by (simp_all add: scan_all_def close_positions_def initial_state_def)
  have ps: "fst (fst (ParsePlaceholders d h runs docBytes)) = placeholders ?st"
    and sn: "snd (ParsePlaceholders d h runs docBytes) = []"
    using st lg by (simp_all add: ParsePlaceholders_def Let_def)
  have "length (placeholders ?st) = length (filter (is_open d) (all_runes h runs docBytes))"
    using scan_all_counts(1) [of d h runs docBytes] st by simp
  moreover have "length (placeholders ?st) = length (filter (is_close d) (all_runes h runs docBytes))"
    using scan_all_counts(2) [of d h runs docBytes] lg by simp
  ultimately show ?thesis using cl sn by (simp add: ps)
qed

lemma span_runes: "all_runes span_store [10, 11, 12] span_doc = [123, 97, 98, 99, 125]"
  by (simp add: all_runes_def WithText_def span_store_def span_doc_bytes GetText_def byte_def)

theorem nested_pairs_give_placeholders_witness:
  "length (fst (fst (ParsePlaceholders default_delimiters span_store [10, 11, 12] span_doc))) = 1
   \<and> map closed_at (fst (fst (ParsePlaceholders default_delimiters span_store [10, 11, 12] span_doc)))
       = [(12, 1)]"
proof -
  have w: "well_nested default_delimiters (all_runes span_store [10, 11, 12] span_doc)"
    by (simp add: span_runes well_nested_def is_open_def is_close_def default_delimiters_def)
  have n: "length (filter (is_open default_delimiters)
             (all_runes span_store [10, 11, 12] span_doc)) = 1"
    by (simp add: span_runes is_open_def default_delimiters_def)
  have c: "close_positions default_delimiters span_store [10, 11, 12] span_doc = [(12, 1)]"
    by (simp add: close_positions_def WithText_def span_store_def span_doc_bytes GetText_def
        byte_def is_close_def default_delimiters_def)
  from nested_pairs_give_placeholders [OF w] show ?thesis
    unfolding n c by blast
qed

section \<open>The structure of the placeholders\<close>

lemma emitted_shape:
  assumes "open_at d h docBytes (Run f) (Start (Position f))" and "close_at d h docBytes run i"
  shows "placeholder_shape d h docBytes (emitted h docBytes run i f)"
proof (cases "run = Run f")
  case True
  then show ?thesis using assms
    by (simp add: placeholder_shape_def emitted_def)
next
  case False
  then show ?thesis using assms
    by (simp add: placeholder_shape_def emitted_def span_fragments_def
        NewPlaceholderFragment_def butlast_append)
qed

lemma scan_rune_shape:
  assumes "shape_ok d h docBytes st"
    and "0 \<le> i" and "nat i < length (runes (GetText h run docBytes))"
    and "runes (GetText h run docBytes) ! nat i = r"
  shows "shape_ok d h docBytes (scan_rune d h docBytes run i r st)"
proof (cases rule: scan_rune_cases [of d r h docBytes run i st])
  case push
  then have "open_at d h docBytes run i" using assms by (simp add: open_at_def)
  then show ?thesis using push assms(1)
    by (simp add: shape_ok_def NewPlaceholderFragment_def)
next
  case unmatched
  then show ?thesis using assms(1) by (simp add: shape_ok_def)
next
  case (pop fs f)
  then have "close_at d h docBytes run i" using assms by (simp add: close_at_def)
  moreover have "open_at d h docBytes (Run f) (Start (Position f))"
    using pop assms(1) by (simp add: shape_ok_def)
  ultimately have "placeholder_shape d h docBytes (emitted h docBytes run i f)"
    by (simp add: emitted_shape)
  then show ?thesis using pop assms(1) by (simp add: shape_ok_def)
next
  case other
  then show ?thesis using assms(1) by simp
qed

lemma scan_runes_shape:
  assumes "shape_ok d h docBytes st"
    and "runes (GetText h run docBytes) = pre @ rs" and "i = int (length pre)"
  shows "shape_ok d h docBytes (scan_runes d h docBytes run i rs st)"
  using assms
proof (induction rs arbitrary: st i pre)
  case Nil
  then show ?case by simp
next
  case (Cons r rs)
  have "shape_ok d h docBytes (scan_rune d h docBytes run i r st)"
    using Cons.prems by (intro scan_rune_shape) simp_all
  moreover have "runes (GetText h run docBytes) = (pre @ [r]) @ rs"
    and "i + 1 = int (length (pre @ [r]))"
    using Cons.prems by simp_all
  ultimately show ?case
    using Cons.IH [of "scan_rune d h docBytes run i r st" "pre @ [r]" "i + 1"] by simp
qed

lemma scan_run_shape:
  assumes "shape_ok d h docBytes st"
  shows "shape_ok d h docBytes (scan_run d h docBytes st run)"
proof -
  let ?st0 = "st\<lparr>hasDelimiter := False\<rparr>"
  have "shape_ok d h docBytes ?st0" using assms by (simp add: shape_ok_def)
  then have "shape_ok d h docBytes
     (scan_runes d h docBytes run 0 (runes (GetText h run docBytes)) ?st0)"
    by (rule scan_runes_shape [where pre = "[]"]) simp_all
  then show ?thesis
    by (simp add: scan_run_def Let_def shape_ok_def list_all_iff)
qed

lemma scan_all_shape: "shape_ok d h docBytes (scan_all d h runs docBytes)"
proof -
  have "shape_ok d h docBytes st \<Longrightarrow> shape_ok d h docBytes (foldl (scan_run d h docBytes) st rl)"
    for st rl
    by (induction rl arbitrary: st) (simp_all add: scan_run_shape)
  then show ?thesis
    by (simp add: scan_all_def shape_ok_def initial_state_def)
qed

text \<open>
  C3: every placeholder that \<^verbatim>\<open>ParsePlaceholders\<close> returns starts at an open delimiter and
  ends just after a close delimiter; it has exactly one fragment if and only if both
  were found in the same run; and when it has more, its first fragment ends at the
  length of that fragment's own run's text, its middle fragments are one per recorded
  span run with position \<open>{0, length of the run's text}\<close>, and its last fragment has
  position \<open>{0, i + 1}\<close> for the index \<open>i\<close> of the close delimiter.
\<close>

theorem placeholders_well_shaped:
  "\<forall>p \<in> set (fst (fst (ParsePlaceholders d h runs docBytes))). placeholder_shape d h docBytes p"
  using scan_all_shape [of d h docBytes runs]
  by (simp add: ParsePlaceholders_def Let_def shape_ok_def list_all_iff)

theorem placeholders_well_shaped_witness:
  "length (Fragments (hd (fst (fst
       (ParsePlaceholders default_delimiters span_store [10, 11, 12] span_doc))))) = 3
   \<and> placeholder_shape default_delimiters span_store span_doc
        (hd (fst (fst (ParsePlaceholders default_delimiters span_store [10, 11, 12] span_doc))))"
proof -
  have "hd (fst (fst (ParsePlaceholders default_delimiters span_store [10, 11, 12] span_doc)))
          \<in> set (fst (fst (ParsePlaceholders default_delimiters span_store [10, 11, 12] span_doc)))"
    by (simp add: span_parse)
  with placeholders_well_shaped [of default_delimiters span_store "[10, 11, 12]" span_doc]
  have "placeholder_shape default_delimiters span_store span_doc
        (hd (fst (fst (ParsePlaceholders default_delimiters span_store [10, 11, 12] span_doc))))"
    by blast
  then show ?thesis by (simp add: span_parse)
qed

section \<open>The placeholders are the matched pairs\<close>

text \<open>
  The scanner against the matching of the tokens: the placeholders it has emitted are the
  matched pairs, its stack is the stack of open places, and its log has one line for each
  close delimiter that was skipped.
\<close>

lemma matched_append:
  "matched d opens (ts @ ts') = matched d opens ts @ matched d (pending d opens ts) ts'"
  by (induction d opens ts rule: matched.induct) (simp_all split: list.splits)

lemma stray_append:
  "stray d opens (ts @ ts') = stray d opens ts @ stray d (pending d opens ts) ts'"
  by (induction d opens ts rule: stray.induct) (simp_all split: list.splits)

lemma pending_append:
  "pending d opens (ts @ ts') = pending d (pending d opens ts) ts'"
  by (induction d opens ts rule: pending.induct) (simp_all split: list.splits)

lemma opened_at_emitted: "opened_at (emitted h docBytes run i f) = open_pos f"
  by (simp add: opened_at_def emitted_def open_pos_def)

lemma open_pos_New: "open_pos (NewPlaceholderFragment pos run) = (run, Start pos)"
  by (simp add: open_pos_def NewPlaceholderFragment_def)

lemma scan_runes_matched:
  fixes d h docBytes run i rs st
  defines "st' \<equiv> scan_runes d h docBytes run i rs st"
  defines "opens \<equiv> rev (map open_pos (stack st))"
  shows "map (\<lambda>p. (opened_at p, closed_at p)) (placeholders st')
           = map (\<lambda>p. (opened_at p, closed_at p)) (placeholders st)
             @ matched d opens (tokens_in run i rs)"
    and "rev (map open_pos (stack st')) = pending d opens (tokens_in run i rs)"
    and "log st' = log st @ map (close_line h docBytes) (stray d opens (tokens_in run i rs))"
  unfolding st'_def opens_def
proof (induction rs arbitrary: st i)
  case Nil
  {
    case 1 show ?case by simp
  next
    case 2 show ?case by simp
  next
    case 3 show ?case by simp
  }
next
  case (Cons r rs)
  let ?st1 = "scan_rune d h docBytes run i r st"
  note ih = Cons.IH
  {
    case 1
    show ?case
      by (cases rule: scan_rune_cases [of d r h docBytes run i st])
        (simp_all add: ih is_close_not_open open_pos_New opened_at_emitted closed_at_emitted)
  next
    case 2
    show ?case
      by (cases rule: scan_rune_cases [of d r h docBytes run i st])
        (simp_all add: ih is_close_not_open open_pos_New)
  next
    case 3
    show ?case
      by (cases rule: scan_rune_cases [of d r h docBytes run i st])
        (simp_all add: ih is_close_not_open open_pos_New close_line_def)
  }
qed


lemma open_pos_SpanRun: "open_pos (f\<lparr>SpanRun := srs\<rparr>) = open_pos f"
  by (simp add: open_pos_def)

lemma scan_run_matched:
  fixes d h docBytes run st
  defines "st' \<equiv> scan_run d h docBytes st run"
  defines "opens \<equiv> rev (map open_pos (stack st))"
  defines "ts \<equiv> tokens_in run 0 (runes (GetText h run docBytes))"
  shows "map (\<lambda>p. (opened_at p, closed_at p)) (placeholders st')
           = map (\<lambda>p. (opened_at p, closed_at p)) (placeholders st) @ matched d opens ts"
    and "rev (map open_pos (stack st')) = pending d opens ts"
    and "log st' = log st @ map (close_line h docBytes) (stray d opens ts)"
proof -
  let ?st0 = "st\<lparr>hasDelimiter := False\<rparr>"
  let ?st1 = "scan_runes d h docBytes run 0 (runes (GetText h run docBytes)) ?st0"
  have eq: "placeholders st' = placeholders ?st1" "map open_pos (stack st') = map open_pos (stack ?st1)"
    "log st' = log ?st1"
    unfolding st'_def scan_run_def Let_def by (simp_all add: open_pos_SpanRun comp_def)
  show "map (\<lambda>p. (opened_at p, closed_at p)) (placeholders st')
           = map (\<lambda>p. (opened_at p, closed_at p)) (placeholders st) @ matched d opens ts"
    unfolding eq opens_def ts_def
    using scan_runes_matched(1) [of d h docBytes run 0 _ ?st0] by simp
  show "rev (map open_pos (stack st')) = pending d opens ts"
    unfolding eq opens_def ts_def
    using scan_runes_matched(2) [of d h docBytes run 0 _ ?st0] by simp
  show "log st' = log st @ map (close_line h docBytes) (stray d opens ts)"
    unfolding eq opens_def ts_def
    using scan_runes_matched(3) [of d h docBytes run 0 _ ?st0] by simp
qed

lemma scan_fold_matched:
  fixes d h docBytes rl st
  defines "st' \<equiv> foldl (scan_run d h docBytes) st rl"
  defines "opens \<equiv> rev (map open_pos (stack st))"
  defines "ts \<equiv> concat (map (\<lambda>run. tokens_in run 0 (runes (GetText h run docBytes))) rl)"
  shows "map (\<lambda>p. (opened_at p, closed_at p)) (placeholders st')
           = map (\<lambda>p. (opened_at p, closed_at p)) (placeholders st) @ matched d opens ts"
    and "rev (map open_pos (stack st')) = pending d opens ts"
    and "log st' = log st @ map (close_line h docBytes) (stray d opens ts)"
  unfolding st'_def opens_def ts_def
proof (induction rl arbitrary: st)
  case Nil
  {
    case 1 show ?case by simp
  next
    case 2 show ?case by simp
  next
    case 3 show ?case by simp
  }
next
  case (Cons run rl)
  {
    case 1
    show ?case
      by (simp add: Cons.IH scan_run_matched matched_append)
  next
    case 2
    show ?case
      by (simp add: Cons.IH scan_run_matched pending_append)
  next
    case 3
    show ?case
      by (simp add: Cons.IH scan_run_matched stray_append)
  }
qed

lemma scan_all_matched:
  fixes d h runs docBytes
  defines "st \<equiv> scan_all d h runs docBytes"
  shows "map (\<lambda>p. (opened_at p, closed_at p)) (placeholders st)
           = matched d [] (tokens h runs docBytes)"
    and "rev (map open_pos (stack st)) = pending d [] (tokens h runs docBytes)"
    and "log st = map (close_line h docBytes) (stray d [] (tokens h runs docBytes))"
  unfolding st_def scan_all_def tokens_def
  using scan_fold_matched [of d h docBytes initial_state "WithText h runs"]
  by (simp_all add: initial_state_def)


lemma tokens_in_at:
  "((run', j), r) \<in> set (tokens_in run i rs) \<Longrightarrow>
   run' = run \<and> i \<le> j \<and> nat (j - i) < length rs \<and> rs ! nat (j - i) = r"
proof (induction rs arbitrary: i)
  case Nil
  then show ?case by simp
next
  case (Cons a rs)
  show ?case
  proof (cases "((run', j), r) = ((run, i), a)")
    case True
    then show ?thesis by simp
  next
    case False
    then have "((run', j), r) \<in> set (tokens_in run (i + 1) rs)"
      using Cons.prems by auto
    from Cons.IH [OF this]
    have ih: "run' = run" "i + 1 \<le> j" "nat (j - (i + 1)) < length rs"
      "rs ! nat (j - (i + 1)) = r"
      by simp_all
    have "nat (j - i) = Suc (nat (j - (i + 1)))"
      using ih(2) by linarith
    then show ?thesis using ih by simp
  qed
qed

lemma tokens_at:
  assumes "((run, j), r) \<in> set (tokens h runs docBytes)"
  shows "run \<in> set (WithText h runs) \<and> 0 \<le> j
         \<and> nat j < length (runes (GetText h run docBytes))
         \<and> runes (GetText h run docBytes) ! nat j = r"
proof -
  from assms obtain run0 where r0: "run0 \<in> set (WithText h runs)"
    and "((run, j), r) \<in> set (tokens_in run0 0 (runes (GetText h run0 docBytes)))"
    by (auto simp: tokens_def)
  from tokens_in_at [OF this(2)] r0 show ?thesis by simp
qed

lemma stray_closes:
  "pos \<in> set (stray d opens ts) \<Longrightarrow> \<exists>r. (pos, r) \<in> set ts \<and> is_close d r"
  by (induction d opens ts rule: stray.induct) (auto split: if_splits list.splits)

lemma pending_opens:
  "pos \<in> set (pending d opens ts) \<Longrightarrow>
   pos \<in> set opens \<or> (\<exists>r. (pos, r) \<in> set ts \<and> is_open d r)"
  by (induction d opens ts rule: pending.induct) (auto split: if_splits list.splits)

lemma stray_at:
  "list_all (\<lambda>(run, i). run \<in> set (WithText h runs) \<and> close_at d h docBytes run i)
     (stray d [] (tokens h runs docBytes))"
proof -
  have "run \<in> set (WithText h runs) \<and> close_at d h docBytes run i"
    if "(run, i) \<in> set (stray d [] (tokens h runs docBytes))" for run i
  proof -
    from stray_closes [OF that] obtain r
      where "((run, i), r) \<in> set (tokens h runs docBytes)" and "is_close d r"
      by blast
    with tokens_at [of run i r h runs docBytes] show ?thesis
      by (simp add: close_at_def)
  qed
  then show ?thesis by (auto simp: list_all_iff)
qed

lemma pending_at:
  "list_all (\<lambda>(run, i). run \<in> set (WithText h runs) \<and> open_at d h docBytes run i)
     (pending d [] (tokens h runs docBytes))"
proof -
  have "run \<in> set (WithText h runs) \<and> open_at d h docBytes run i"
    if "(run, i) \<in> set (pending d [] (tokens h runs docBytes))" for run i
  proof -
    from pending_opens [OF that] obtain r
      where "((run, i), r) \<in> set (tokens h runs docBytes)" and "is_open d r"
      by auto
    with tokens_at [of run i r h runs docBytes] show ?thesis
      by (simp add: open_at_def)
  qed
  then show ?thesis by (auto simp: list_all_iff)
qed




lemma close_lines: "map (close_line h docBytes) ps
  = map (\<lambda>(run, i). UnmatchedClose (ID (h run)) (GetText h run docBytes) i) ps"
  by (simp add: close_line_def split_def)

lemma open_lines:
  "map (\<lambda>fragment. UnmatchedOpen (ID (h (Run fragment))) (GetText h (Run fragment) docBytes)
          (Start (Position fragment))) fs
   = map (\<lambda>(run, i). UnmatchedOpen (ID (h run)) (GetText h run docBytes) i) (map open_pos fs)"
  by (simp add: open_pos_def)

lemma heal_tokens:
  "tokens heal_store [0] heal_doc
     = [((0, 0), 125), ((0, 1), 97), ((0, 2), 123), ((0, 3), 98), ((0, 4), 125), ((0, 5), 123)]"
  by (simp add: tokens_def WithText_def heal_store_def heal_doc_bytes GetText_def byte_def)

section \<open>Unmatched delimiters\<close>

text \<open>
  C5: a close delimiter scanned while the stack is empty changes nothing but the log, to
  which it adds one line with the run's ID, the run's text and the index. After
  \<^verbatim>\<open>ParsePlaceholders\<close> the log is exactly one such line for each close delimiter that was
  skipped, in scanning order, followed by one line for each open delimiter that was never
  closed, with the ID and the text of its run and its index, the earliest first; each of
  these places is a run of the input with a close, respectively an open, delimiter at that
  index. The lines of the second kind are those of the fragments left on the stack, each
  with the run and the start of its fragment, which is the place of an open delimiter.
  None of them gives a placeholder: the placeholders and the unmatched-close lines
  together are as many as the close delimiters scanned, and the placeholders and the
  unmatched-open lines together as many as the open delimiters.
\<close>

theorem unmatched_delimiters_healed:
  "(is_close d r \<and> stack st = [] \<longrightarrow>
      scan_rune d h docBytes run i r st
        = st\<lparr>log := log st @ [UnmatchedClose (ID (h run)) (GetText h run docBytes) i]\<rparr>)
   \<and> fst (fst (ParsePlaceholders d h runs docBytes)) = placeholders (scan_all d h runs docBytes)
   \<and> snd (ParsePlaceholders d h runs docBytes)
       = map (\<lambda>(run, i). UnmatchedClose (ID (h run)) (GetText h run docBytes) i)
           (stray d [] (tokens h runs docBytes))
         @ map (\<lambda>(run, i). UnmatchedOpen (ID (h run)) (GetText h run docBytes) i)
             (rev (pending d [] (tokens h runs docBytes)))
   \<and> list_all (\<lambda>(run, i). run \<in> set (WithText h runs) \<and> close_at d h docBytes run i)
        (stray d [] (tokens h runs docBytes))
   \<and> list_all (\<lambda>(run, i). run \<in> set (WithText h runs) \<and> open_at d h docBytes run i)
        (pending d [] (tokens h runs docBytes))
   \<and> filter is_unmatched_open (snd (ParsePlaceholders d h runs docBytes))
       = map (\<lambda>f. UnmatchedOpen (ID (h (Run f))) (GetText h (Run f) docBytes)
                (Start (Position f)))
           (stack (scan_all d h runs docBytes))
   \<and> list_all (\<lambda>f. open_at d h docBytes (Run f) (Start (Position f)))
        (stack (scan_all d h runs docBytes))
   \<and> length (fst (fst (ParsePlaceholders d h runs docBytes)))
         + length (filter is_unmatched_close (snd (ParsePlaceholders d h runs docBytes)))
       = length (filter (is_close d) (all_runes h runs docBytes))
   \<and> length (fst (fst (ParsePlaceholders d h runs docBytes)))
         + length (filter is_unmatched_open (snd (ParsePlaceholders d h runs docBytes)))
       = length (filter (is_open d) (all_runes h runs docBytes))"
proof -
  let ?st = "scan_all d h runs docBytes"
  let ?line = "\<lambda>f. UnmatchedOpen (ID (h (Run f))) (GetText h (Run f) docBytes)
                (Start (Position f))"
  have uo: "filter is_unmatched_open (map ?line fs) = map ?line fs"
    and uc: "filter is_unmatched_close (map ?line fs) = []" for fs
    by (induction fs) simp_all
  have p: "fst (fst (ParsePlaceholders d h runs docBytes)) = placeholders ?st"
    and l: "snd (ParsePlaceholders d h runs docBytes) = log ?st @ map ?line (stack ?st)"
    by (simp_all add: ParsePlaceholders_def Let_def)
  have 1: "is_close d r \<and> stack st = [] \<longrightarrow>
      scan_rune d h docBytes run i r st
        = st\<lparr>log := log st @ [UnmatchedClose (ID (h run)) (GetText h run docBytes) i]\<rparr>"
    by (simp add: scan_rune_unmatched)
  have "map open_pos (stack ?st) = rev (pending d [] (tokens h runs docBytes))"
    using scan_all_matched(2) [of d h runs docBytes] by (metis rev_rev_ident)
  then have 3: "snd (ParsePlaceholders d h runs docBytes)
       = map (\<lambda>(run, i). UnmatchedClose (ID (h run)) (GetText h run docBytes) i)
           (stray d [] (tokens h runs docBytes))
         @ map (\<lambda>(run, i). UnmatchedOpen (ID (h run)) (GetText h run docBytes) i)
             (rev (pending d [] (tokens h runs docBytes)))"
    unfolding l open_lines
    using scan_all_matched(3) [of d h runs docBytes] by (simp add: close_lines)
  have 6: "filter is_unmatched_open (snd (ParsePlaceholders d h runs docBytes))
       = map ?line (stack ?st)"
    unfolding l using scan_all_counts(3) [of d h runs docBytes] by (simp add: uo)
  have 7: "list_all (\<lambda>f. open_at d h docBytes (Run f) (Start (Position f))) (stack ?st)"
    using scan_all_shape [of d h docBytes runs] by (simp add: shape_ok_def)
  have 8: "length (fst (fst (ParsePlaceholders d h runs docBytes)))
         + length (filter is_unmatched_close (snd (ParsePlaceholders d h runs docBytes)))
       = length (filter (is_close d) (all_runes h runs docBytes))"
    unfolding p l using scan_all_counts(2) [of d h runs docBytes] by (simp add: uc)
  have 9: "length (fst (fst (ParsePlaceholders d h runs docBytes)))
         + length (filter is_unmatched_open (snd (ParsePlaceholders d h runs docBytes)))
       = length (filter (is_open d) (all_runes h runs docBytes))"
    unfolding p l using scan_all_counts(1,3) [of d h runs docBytes] by (simp add: uo)
  show ?thesis
    by (intro conjI 1 p 3 stray_at pending_at 6 7 8 9)
qed


theorem unmatched_delimiters_healed_witness:
  "scan_rune default_delimiters heal_store heal_doc 0 0 0x7D initial_state
     = initial_state\<lparr>log := [UnmatchedClose 7 ''}a{b}{'' 0]\<rparr>
   \<and> snd (ParsePlaceholders default_delimiters heal_store [0] heal_doc)
       = [UnmatchedClose 7 ''}a{b}{'' 0, UnmatchedOpen 7 ''}a{b}{'' 5]
   \<and> length (fst (fst (ParsePlaceholders default_delimiters heal_store [0] heal_doc))) = 1"
proof -
  note th = unmatched_delimiters_healed [where d = default_delimiters and r = "0x7D"
      and st = initial_state and h = heal_store and docBytes = heal_doc and run = 0
      and i = 0 and runs = "[0]"]
  have c: "is_close default_delimiters 0x7D \<and> stack initial_state = []"
    by (simp add: is_close_def default_delimiters_def initial_state_def)
  have r: "all_runes heal_store [0] heal_doc = [125, 97, 123, 98, 125, 123]"
    by (simp add: all_runes_def WithText_def heal_store_def heal_doc_bytes GetText_def byte_def)
  have t: "GetText heal_store 0 heal_doc = ''}a{b}{''" and k: "ID (heal_store 0) = 7"
    by (simp_all add: heal_store_def heal_doc_bytes GetText_def)
  have n: "length (filter (is_close default_delimiters) [125, 97, 123, 98, 125, 123]) = 2"
    by (simp add: is_close_def is_open_def default_delimiters_def)
  have s: "stray default_delimiters []
       [((0, 0), 125), ((0, 1), 97), ((0, 2), 123), ((0, 3), 98), ((0, 4), 125), ((0, 5), 123)]
       = [(0, 0)]"
    and p: "pending default_delimiters []
       [((0, 0), 125), ((0, 1), 97), ((0, 2), 123), ((0, 3), 98), ((0, 4), 125), ((0, 5), 123)]
       = [(0, 5)]"
    by (simp_all add: is_close_def is_open_def default_delimiters_def)
  have l: "log initial_state = []"
    by (simp add: initial_state_def)
  have 1: "scan_rune default_delimiters heal_store heal_doc 0 0 0x7D initial_state
             = initial_state\<lparr>log := [UnmatchedClose 7 ''}a{b}{'' 0]\<rparr>"
    using th c unfolding t k l by simp
  from th have "snd (ParsePlaceholders default_delimiters heal_store [0] heal_doc)
       = map (\<lambda>(run, i). UnmatchedClose (ID (heal_store run)) (GetText heal_store run heal_doc) i)
           (stray default_delimiters [] (tokens heal_store [0] heal_doc))
         @ map (\<lambda>(run, i). UnmatchedOpen (ID (heal_store run)) (GetText heal_store run heal_doc) i)
             (rev (pending default_delimiters [] (tokens heal_store [0] heal_doc)))"
    by blast
  then have 2: "snd (ParsePlaceholders default_delimiters heal_store [0] heal_doc)
       = [UnmatchedClose 7 ''}a{b}{'' 0, UnmatchedOpen 7 ''}a{b}{'' 5]"
    unfolding heal_tokens s p by (simp add: t k)
  from th have "length (fst (fst (ParsePlaceholders default_delimiters heal_store [0] heal_doc)))
         + length (filter is_unmatched_close
             (snd (ParsePlaceholders default_delimiters heal_store [0] heal_doc))) = 2"
    unfolding r n by blast
  then have 3: "length (fst (fst (ParsePlaceholders default_delimiters heal_store [0] heal_doc))) = 1"
    unfolding 2 by simp
  from 1 2 3 show ?thesis by blast
qed

section \<open>No hard failure\<close>




section \<open>No unfinished fragment is returned\<close>

lemma length_runes_le: "length (runes s) \<le> length s"
proof (induction s rule: runes.induct)
  case 1
  show ?case by simp
next
  case (2 c s)
  obtain r n where rn: "DecodeRuneInString (c # s) = (r, n)"
    by (cases "DecodeRuneInString (c # s)")
  have "length (runes (drop (n - 1) s)) \<le> length (drop (n - 1) s)"
    using "2.IH" rn by simp
  then show ?case
    by (simp add: rn del: DecodeRuneInString.simps)
qed

lemma emitted_bounds:
  assumes "open_at d h docBytes (Run f) (Start (Position f))" and "0 \<le> i"
    and "run = Run f \<Longrightarrow> Start (Position f) < i"
  shows "placeholder_bounds h docBytes (emitted h docBytes run i f)"
proof (cases "run = Run f")
  case True
  then show ?thesis using assms
    by (simp add: placeholder_bounds_def emitted_def pos_ok_def open_at_def)
next
  case False
  have "nat (Start (Position f)) < length (GetText h (Run f) docBytes)"
    using assms(1) length_runes_le [of "GetText h (Run f) docBytes"]
    by (simp add: open_at_def)
  then have "Start (Position f) < int (length (GetText h (Run f) docBytes))"
    by linarith
  then show ?thesis using False assms
    by (simp add: placeholder_bounds_def emitted_def pos_ok_def open_at_def
        NewPlaceholderFragment_def butlast_append list_all_iff)
qed

lemma scan_rune_bounds:
  assumes "shape_ok d h docBytes st" and "bounds_ok h docBytes seen run i st" and "0 \<le> i"
  shows "bounds_ok h docBytes seen run (i + 1) (scan_rune d h docBytes run i r st)"
proof -
  have mono: "list_all (\<lambda>f. (Run f = run \<and> Start (Position f) < i + 1)
                        \<or> (Run f \<noteq> run \<and> Run f \<in> seen)) fs"
    if "list_all (\<lambda>f. (Run f = run \<and> Start (Position f) < i)
                        \<or> (Run f \<noteq> run \<and> Run f \<in> seen)) fs"
    for fs :: "PlaceholderFragment list"
    using that by (auto simp: list_all_iff)
  show ?thesis
  proof (cases rule: scan_rune_cases [of d r h docBytes run i st])
    case push
    then show ?thesis using assms(2) mono [of "stack st"]
      by (simp add: bounds_ok_def NewPlaceholderFragment_def)
  next
    case unmatched
    then show ?thesis using assms(2) by (simp add: bounds_ok_def)
  next
    case (pop fs f)
    have o: "open_at d h docBytes (Run f) (Start (Position f))"
      using pop assms(1) by (simp add: shape_ok_def)
    have "run = Run f \<Longrightarrow> Start (Position f) < i"
      using pop assms(2) by (auto simp: bounds_ok_def)
    then have "placeholder_bounds h docBytes (emitted h docBytes run i f)"
      using o assms(3) by (intro emitted_bounds)
    then show ?thesis using pop assms(2) mono [of fs]
      by (simp add: bounds_ok_def)
  next
    case other
    then show ?thesis using assms(2) mono [of "stack st"]
      by (simp add: bounds_ok_def)
  qed
qed

lemma scan_runes_bounds:
  assumes "shape_ok d h docBytes st" and "bounds_ok h docBytes seen run i st"
    and "runes (GetText h run docBytes) = pre @ rs" and "i = int (length pre)"
  shows "stack_seen h docBytes (insert run seen) (scan_runes d h docBytes run i rs st)"
  using assms
proof (induction rs arbitrary: st i pre)
  case Nil
  then show ?case
    by (auto simp: bounds_ok_def stack_seen_def list_all_iff)
next
  case (Cons r rs)
  let ?st1 = "scan_rune d h docBytes run i r st"
  have s1: "shape_ok d h docBytes ?st1"
    using Cons.prems by (intro scan_rune_shape) simp_all
  have b1: "bounds_ok h docBytes seen run (i + 1) ?st1"
    using Cons.prems by (intro scan_rune_bounds) simp_all
  have e1: "runes (GetText h run docBytes) = (pre @ [r]) @ rs"
    and e2: "i + 1 = int (length (pre @ [r]))"
    using Cons.prems by simp_all
  have "stack_seen h docBytes (insert run seen) (scan_runes d h docBytes run (i + 1) rs ?st1)"
    by (rule Cons.IH [OF s1 b1 e1 e2])
  then show ?case by simp
qed

lemma scan_run_bounds:
  assumes "shape_ok d h docBytes st" and "stack_seen h docBytes seen st" and "run \<notin> seen"
  shows "stack_seen h docBytes (insert run seen) (scan_run d h docBytes st run)"
proof -
  let ?st0 = "st\<lparr>hasDelimiter := False\<rparr>"
  have "shape_ok d h docBytes ?st0" using assms(1) by (simp add: shape_ok_def)
  moreover have "bounds_ok h docBytes seen run 0 ?st0"
    using assms(2,3) by (auto simp: bounds_ok_def stack_seen_def list_all_iff)
  ultimately have "stack_seen h docBytes (insert run seen)
     (scan_runes d h docBytes run 0 (runes (GetText h run docBytes)) ?st0)"
    by (rule scan_runes_bounds [where pre = "[]"]) simp_all
  then show ?thesis
    by (simp add: scan_run_def Let_def stack_seen_def list_all_iff)
qed

lemma scan_fold_bounds:
  assumes "shape_ok d h docBytes st" and "stack_seen h docBytes seen st"
    and "distinct rl" and "set rl \<inter> seen = {}"
  shows "stack_seen h docBytes (set rl \<union> seen) (foldl (scan_run d h docBytes) st rl)"
  using assms
proof (induction rl arbitrary: st seen)
  case Nil
  then show ?case by simp
next
  case (Cons run rl)
  have "shape_ok d h docBytes (scan_run d h docBytes st run)"
    using Cons.prems(1) by (rule scan_run_shape)
  moreover have "stack_seen h docBytes (insert run seen) (scan_run d h docBytes st run)"
    using Cons.prems by (intro scan_run_bounds) auto
  moreover have "distinct rl" and "set rl \<inter> insert run seen = {}"
    using Cons.prems by auto
  ultimately have "stack_seen h docBytes (set rl \<union> insert run seen)
      (foldl (scan_run d h docBytes) (scan_run d h docBytes st run) rl)"
    by (rule Cons.IH)
  then show ?case by simp
qed

lemma shape_finished:
  assumes sh: "placeholder_shape d h docBytes p"
  shows "fragments_finished h docBytes p"
proof -
  define fs where "fs = Fragments p"
  define first where "first = hd fs"
  define lst where "lst = last fs"
  from sh have ne: "fs \<noteq> []"
    and o: "open_at d h docBytes (Run first) (Start (Position first))"
    and c: "close_at d h docBytes (Run lst) (End (Position lst) - 1)"
    by (simp_all add: placeholder_shape_def Let_def fs_def first_def lst_def)
  have s0: "0 \<le> Start (Position first)"
    and s1: "Start (Position first) < int (length (GetText h (Run first) docBytes))"
    using o length_runes_le [of "GetText h (Run first) docBytes"]
    unfolding open_at_def by linarith+
  have e1: "1 \<le> End (Position lst)"
    using c unfolding close_at_def by linarith
  show ?thesis
  proof (cases "1 < length fs")
    case False
    then obtain f where f: "fs = [f]"
      using ne by (cases fs) simp_all
    then show ?thesis
      using s0 e1 by (simp add: fragments_finished_def fs_def [symmetric] first_def lst_def)
  next
    case multi: True
    with sh have e: "End (Position first) = int (length (GetText h (Run first) docBytes))"
      and m: "butlast (tl fs) = span_fragments h docBytes first"
      and z: "Start (Position lst) = 0"
      by (simp_all add: placeholder_shape_def Let_def fs_def first_def lst_def)
    have tne: "tl fs \<noteq> []"
      using multi by (cases fs; cases "tl fs"; simp)
    have "last (tl fs) = lst"
      using tne ne by (simp add: lst_def last_tl)
    then have "tl fs = span_fragments h docBytes first @ [lst]"
      using tne m append_butlast_last_id [of "tl fs"] by simp
    then have fs: "fs = first # span_fragments h docBytes first @ [lst]"
      using ne by (simp add: first_def) (metis list.collapse)
    have mids: "list_all (\<lambda>m. Start (Position m) = 0
                        \<and> End (Position m) = int (length (GetText h (Run m) docBytes)))
            (span_fragments h docBytes first)"
      by (simp add: span_fragments_def NewPlaceholderFragment_def list_all_iff)
    then have mids': "list_all (\<lambda>f. End (Position f) \<noteq> - 1 \<and> 0 \<le> Start (Position f)
                        \<and> 0 \<le> End (Position f)) (span_fragments h docBytes first)"
      by (auto simp: list_all_iff)
    have "fragments_finished h docBytes \<lparr>Fragments = first # span_fragments h docBytes first @ [lst]\<rparr>"
      using s0 s1 e e1 z mids mids'
      by (simp add: fragments_finished_def pos_ok_def butlast_append)
    then show ?thesis
      using fs by (simp add: fragments_finished_def fs_def)
  qed
qed

lemma heal_parse:
  "fst (fst (ParsePlaceholders default_delimiters heal_store [0] heal_doc))
     = [\<lparr>Fragments = [\<lparr>Position = \<lparr>Start = 2, End = 5\<rparr>, Run = 0, SpanRun = []\<rparr>]\<rparr>]"
  by (simp add: ParsePlaceholders_def scan_all_def WithText_def heal_store_def heal_doc_bytes
      scan_run_def GetText_def byte_def scan_rune_def default_delimiters_def initial_state_def
      NewPlaceholderFragment_def Let_def)

text \<open>
  C10, as amended: every placeholder that \<^verbatim>\<open>ParsePlaceholders\<close> returns, whatever the runs
  are, has fragments with an end other than \<open>-1\<close> and with no negative start or end; a
  fragment in between has \<open>Start = 0\<close> and the length of its run's text as \<open>End\<close>; and
  when it has several fragments its first and its last one have \<open>0 \<le> Start < End\<close>.
  When no run occurs twice among the runs with text, the fragment of a placeholder of one
  fragment has \<open>0 \<le> Start < End\<close> too.
\<close>

theorem fragments_are_finished:
  "(\<forall>p \<in> set (fst (fst (ParsePlaceholders d h runs docBytes))). fragments_finished h docBytes p)
   \<and> (distinct (WithText h runs) \<longrightarrow>
        (\<forall>p \<in> set (fst (fst (ParsePlaceholders d h runs docBytes))).
           length (Fragments p) = 1 \<longrightarrow> pos_ok (hd (Fragments p))))"
proof (intro conjI impI ballI)
  fix p
  assume "p \<in> set (fst (fst (ParsePlaceholders d h runs docBytes)))"
  then have "placeholder_shape d h docBytes p"
    using scan_all_shape [of d h docBytes runs]
    by (simp add: ParsePlaceholders_def Let_def shape_ok_def list_all_iff)
  then show "fragments_finished h docBytes p"
    by (rule shape_finished)
next
  fix p
  assume dist: "distinct (WithText h runs)"
    and p: "p \<in> set (fst (fst (ParsePlaceholders d h runs docBytes)))"
  have "shape_ok d h docBytes initial_state" and "stack_seen h docBytes {} initial_state"
    by (simp_all add: shape_ok_def stack_seen_def initial_state_def)
  then have "stack_seen h docBytes (set (WithText h runs) \<union> {}) (scan_all d h runs docBytes)"
    unfolding scan_all_def using dist by (intro scan_fold_bounds) simp_all
  with p have "placeholder_bounds h docBytes p"
    by (simp add: ParsePlaceholders_def Let_def stack_seen_def list_all_iff)
  then show "pos_ok (hd (Fragments p))"
    by (simp add: placeholder_bounds_def Let_def)
qed

theorem fragments_are_finished_witness:
  "distinct (WithText heal_store [0])
   \<and> length (Fragments (hd (fst (fst
        (ParsePlaceholders default_delimiters heal_store [0] heal_doc))))) = 1
   \<and> pos_ok (hd (Fragments (hd (fst (fst
        (ParsePlaceholders default_delimiters heal_store [0] heal_doc))))))
   \<and> 1 < length (Fragments (hd (fst (fst
        (ParsePlaceholders default_delimiters span_store [10, 11, 12] span_doc)))))
   \<and> fragments_finished span_store span_doc
        (hd (fst (fst (ParsePlaceholders default_delimiters span_store [10, 11, 12] span_doc))))
   \<and> pos_ok (hd (Fragments (hd (fst (fst
        (ParsePlaceholders default_delimiters span_store [10, 11, 12] span_doc))))))
   \<and> pos_ok (last (Fragments (hd (fst (fst
        (ParsePlaceholders default_delimiters span_store [10, 11, 12] span_doc))))))"
proof -
  note th1 = fragments_are_finished [of default_delimiters heal_store "[0]" heal_doc]
  note th3 = fragments_are_finished [of default_delimiters span_store "[10, 11, 12]" span_doc]
  have d: "distinct (WithText heal_store [0])"
    by (simp add: WithText_def heal_store_def)
  have m1: "hd (fst (fst (ParsePlaceholders default_delimiters heal_store [0] heal_doc)))
          \<in> set (fst (fst (ParsePlaceholders default_delimiters heal_store [0] heal_doc)))"
    by (simp add: heal_parse)
  have l1: "length (Fragments (hd (fst (fst
        (ParsePlaceholders default_delimiters heal_store [0] heal_doc))))) = 1"
    by (simp add: heal_parse)
  from th1 d m1 l1 have 1: "pos_ok (hd (Fragments (hd (fst (fst
        (ParsePlaceholders default_delimiters heal_store [0] heal_doc))))))"
    by blast
  have m3: "hd (fst (fst (ParsePlaceholders default_delimiters span_store [10, 11, 12] span_doc)))
          \<in> set (fst (fst (ParsePlaceholders default_delimiters span_store [10, 11, 12] span_doc)))"
    by (simp add: span_parse)
  have l3: "1 < length (Fragments (hd (fst (fst
        (ParsePlaceholders default_delimiters span_store [10, 11, 12] span_doc)))))"
    by (simp add: span_parse)
  from th3 m3 have 3: "fragments_finished span_store span_doc
        (hd (fst (fst (ParsePlaceholders default_delimiters span_store [10, 11, 12] span_doc))))"
    by blast
  from 3 l3 have 4: "pos_ok (hd (Fragments (hd (fst (fst
        (ParsePlaceholders default_delimiters span_store [10, 11, 12] span_doc))))))"
    and 5: "pos_ok (last (Fragments (hd (fst (fst
        (ParsePlaceholders default_delimiters span_store [10, 11, 12] span_doc))))))"
    by (simp_all add: fragments_finished_def Let_def)
  from d l1 1 l3 3 4 5 show ?thesis by blast
qed

text \<open>
  For a placeholder of one fragment \<open>Start < End\<close> fails when a run occurs twice: the open
  delimiter at index 1 of the first pass is closed by the close delimiter at index 0 of
  the second pass, the runs compare equal, and the fragment gets \<open>End = 1 = Start\<close>.
\<close>

theorem fragments_are_finished_counterexample:
  "fst (fst (ParsePlaceholders default_delimiters alias_store [20, 20] alias_doc))
     = [\<lparr>Fragments = [\<lparr>Position = \<lparr>Start = 1, End = 1\<rparr>, Run = 20, SpanRun = []\<rparr>]\<rparr>]
   \<and> \<not> pos_ok (hd (Fragments (hd (fst (fst
        (ParsePlaceholders default_delimiters alias_store [20, 20] alias_doc))))))"
proof -
  have p: "fst (fst (ParsePlaceholders default_delimiters alias_store [20, 20] alias_doc))
     = [\<lparr>Fragments = [\<lparr>Position = \<lparr>Start = 1, End = 1\<rparr>, Run = 20, SpanRun = []\<rparr>]\<rparr>]"
    by (simp add: ParsePlaceholders_def scan_all_def WithText_def alias_store_def alias_doc_bytes
        scan_run_def GetText_def byte_def scan_rune_def default_delimiters_def
        initial_state_def NewPlaceholderFragment_def Let_def)
  show ?thesis
    by (simp add: p pos_ok_def)
qed

section \<open>Text across runs\<close>

text \<open>
  C2: the index of the open delimiter is counted in runes and then used as an offset in
  bytes. The runs \<^verbatim>\<open>U+00E9 {a\<close>, \<^verbatim>\<open>b\<close> and \<^verbatim>\<open>c}\<close> hold one placeholder, from the open
  delimiter in the first to the close delimiter in the third, with the second as its
  span run; its text should be \<^verbatim>\<open>{abc}\<close>, and \<^verbatim>\<open>Text\<close> returns it with the byte
  \<^verbatim>\<open>0xA9\<close> in front, the second byte of \<^verbatim>\<open>U+00E9\<close>.
\<close>

theorem text_offsets_are_rune_indices:
  "GetText accent_store 30 accent_doc = [CHR 0xC3, CHR 0xA9, CHR ''{'', CHR ''a'']
   \<and> GetText accent_store 31 accent_doc = ''b''
   \<and> GetText accent_store 32 accent_doc = ''c}''
   \<and> fst (fst (ParsePlaceholders default_delimiters accent_store [30, 31, 32] accent_doc))
       = [\<lparr>Fragments =
            [\<lparr>Position = \<lparr>Start = 1, End = 4\<rparr>, Run = 30, SpanRun = [31]\<rparr>,
             \<lparr>Position = \<lparr>Start = 0, End = 1\<rparr>, Run = 31, SpanRun = []\<rparr>,
             \<lparr>Position = \<lparr>Start = 0, End = 2\<rparr>, Run = 32, SpanRun = []\<rparr>]\<rparr>]
   \<and> map (\<lambda>p. Text accent_store p accent_doc)
         (fst (fst (ParsePlaceholders default_delimiters accent_store [30, 31, 32] accent_doc)))
       = [Some [CHR 0xA9, CHR ''{'', CHR ''a'', CHR ''b'', CHR ''c'', CHR ''}'']]"
proof -
  have p: "fst (fst (ParsePlaceholders default_delimiters accent_store [30, 31, 32] accent_doc))
       = [\<lparr>Fragments =
            [\<lparr>Position = \<lparr>Start = 1, End = 4\<rparr>, Run = 30, SpanRun = [31]\<rparr>,
             \<lparr>Position = \<lparr>Start = 0, End = 1\<rparr>, Run = 31, SpanRun = []\<rparr>,
             \<lparr>Position = \<lparr>Start = 0, End = 2\<rparr>, Run = 32, SpanRun = []\<rparr>]\<rparr>]"
    by (simp add: ParsePlaceholders_def scan_all_def WithText_def accent_store_def
        accent_doc_bytes scan_run_def GetText_def byte_def cont_def scan_rune_def
        default_delimiters_def initial_state_def NewPlaceholderFragment_def Let_def)
  have g1: "GetText accent_store 30 accent_doc = [CHR 0xC3, CHR 0xA9, CHR ''{'', CHR ''a'']"
    and g2: "GetText accent_store 31 accent_doc = ''b''"
    and g3: "GetText accent_store 32 accent_doc = ''c}''"
    by (simp_all add: accent_store_def accent_doc_bytes GetText_def)
  have tx: "map (\<lambda>p. Text accent_store p accent_doc)
       [\<lparr>Fragments =
            [\<lparr>Position = \<lparr>Start = 1, End = 4\<rparr>, Run = 30, SpanRun = [31]\<rparr>,
             \<lparr>Position = \<lparr>Start = 0, End = 1\<rparr>, Run = 31, SpanRun = []\<rparr>,
             \<lparr>Position = \<lparr>Start = 0, End = 2\<rparr>, Run = 32, SpanRun = []\<rparr>]\<rparr>]
       = [Some [CHR 0xA9, CHR ''{'', CHR ''a'', CHR ''b'', CHR ''c'', CHR ''}'']]"
    by (simp add: Text_def slice_def add64_def accent_store_def accent_doc_bytes)
  show ?thesis
    unfolding p by (intro conjI g1 g2 g3 refl tx)
qed

section \<open>Offsets outside the document\<close>

text \<open>
  \<^verbatim>\<open>Placeholder.Text\<close> adds its offsets as \<^verbatim>\<open>int64\<close> and slices against the capacity of
  \<^verbatim>\<open>docBytes\<close>: two offsets whose sum wraps around to an offset in the document read the
  document there, a sum that wraps around to a negative offset panics, and a fragment
  that ends behind the last element but within the capacity reads the spare elements.
\<close>

theorem Text_wraps_and_reads_capacity:
  "Text (\<lambda>_. \<lparr>ID = 1, HasText = True, Text_OpenTag_End = - 9223372036854775808,
               Text_CloseTag_Start = 0\<rparr>)
     \<lparr>Fragments = [\<lparr>Position = \<lparr>Start = - 9223372036854775806, End = - 9223372036854775804\<rparr>,
                    Run = 0, SpanRun = []\<rparr>]\<rparr>
     (byte_slice_of ''abcdef'' []) = Some ''cd''
   \<and> Text (\<lambda>_. \<lparr>ID = 1, HasText = True, Text_OpenTag_End = 9223372036854775807,
               Text_CloseTag_Start = 0\<rparr>)
     \<lparr>Fragments = [\<lparr>Position = \<lparr>Start = 1, End = 2\<rparr>, Run = 0, SpanRun = []\<rparr>]\<rparr>
     (byte_slice_of ''abcdef'' []) = None
   \<and> Text (\<lambda>_. \<lparr>ID = 1, HasText = True, Text_OpenTag_End = 0, Text_CloseTag_Start = 6\<rparr>)
     \<lparr>Fragments = [\<lparr>Position = \<lparr>Start = 4, End = 8\<rparr>, Run = 0, SpanRun = []\<rparr>]\<rparr>
     (byte_slice_of ''abcdef'' ''gh'') = Some ''efgh''"
  by (simp add: Text_def slice_def add64_def elems_byte_slice_of spare_byte_slice_of)

section \<open>Single-byte delimiters\<close>

lemma DecodeRuneInString_cases:
  assumes "DecodeRuneInString (c # s) = (r, n)"
  shows "(n = 1 \<and> byte c < 0x80 \<and> r = int (byte c))
       \<or> (n = 1 \<and> 0x80 \<le> byte c \<and> r = RuneError)
       \<or> (1 < n \<and> n \<le> Suc (length s) \<and> 0x80 \<le> byte c \<and> 0x7F < r
           \<and> 0x80 \<le> byte (s ! (n - 2)))"
proof (cases "byte c < 0x80")
  case True
  then show ?thesis using assms by (simp add: Let_def)
next
  case False
  then show ?thesis using assms
    by (cases s; cases "tl s"; cases "tl (tl s)")
      (auto simp: Let_def cont_def split: if_splits)
qed

lemma runes_nonempty: "s \<noteq> [] \<Longrightarrow> runes s \<noteq> []"
  by (cases s) (simp_all split: prod.splits del: DecodeRuneInString.simps)

lemma hd_runes_ascii:
  assumes "0 \<le> x" and "x < 0x80" and "s \<noteq> []"
  shows "(hd (runes s) = x) = (int (byte (hd s)) = x)"
proof -
  obtain c s' where s: "s = c # s'" using assms(3) by (cases s) auto
  obtain r n where rn: "DecodeRuneInString (c # s') = (r, n)"
    by (cases "DecodeRuneInString (c # s')")
  have "hd (runes s) = r"
    by (simp add: s rn del: DecodeRuneInString.simps)
  moreover have "(r = x) = (int (byte c) = x)"
    using DecodeRuneInString_cases [OF rn] assms(1,2) by (auto simp: RuneError_def)
  ultimately show ?thesis by (simp add: s)
qed

lemma last_drop: "drop k s \<noteq> [] \<Longrightarrow> last (c # s) = last (drop k s)"
proof -
  assume a: "drop k s \<noteq> []"
  then have "s \<noteq> []" by auto
  moreover have "last (take k s @ drop k s) = last (drop k s)"
    using a by (rule last_appendR)
  then have "last s = last (drop k s)" by simp
  ultimately show ?thesis by simp
qed

lemma last_runes_ascii:
  assumes "0 \<le> x" and "x < 0x80"
  shows "s \<noteq> [] \<Longrightarrow> (last (runes s) = x) = (int (byte (last s)) = x)"
proof (induction s rule: runes.induct)
  case 1
  then show ?case by simp
next
  case (2 c s)
  obtain r n where rn: "DecodeRuneInString (c # s) = (r, n)"
    by (cases "DecodeRuneInString (c # s)")
  have ru: "runes (c # s) = r # runes (drop (n - 1) s)"
    by (simp add: rn del: DecodeRuneInString.simps)
  note cs = DecodeRuneInString_cases [OF rn]
  show ?case
  proof (cases "drop (n - 1) s = []")
    case rest: False
    have "last (c # s) = last (drop (n - 1) s)"
      using rest by (rule last_drop)
    moreover have "last (runes (c # s)) = last (runes (drop (n - 1) s))"
      unfolding ru using runes_nonempty [OF rest] by simp
    moreover have "(last (runes (drop (n - 1) s)) = x) = (int (byte (last (drop (n - 1) s))) = x)"
      using "2.IH" [OF rn [symmetric] rest] .
    ultimately show ?thesis by (simp only:)
  next
    case True
    then have len: "length s \<le> n - 1" by simp
    have l: "last (runes (c # s)) = r"
      unfolding ru using True by simp
    show ?thesis
    proof (cases "n = 1")
      case n1: True
      then have e: "s = []" using len by simp
      have "(r = x) = (int (byte c) = x)"
        using cs n1 assms by (auto simp: RuneError_def)
      then show ?thesis unfolding l by (simp add: e)
    next
      case False
      then have big: "1 < n" "n \<le> Suc (length s)" "0x7F < r" "0x80 \<le> byte (s ! (n - 2))"
        using cs by auto
      then have n: "n = Suc (length s)" and ne: "s \<noteq> []" using len by auto
      have "last (c # s) = s ! (n - 2)"
        using ne by (simp add: last_conv_nth n)
      moreover have "r \<noteq> x" using big(3) assms(2) by simp
      moreover have "int (byte (s ! (n - 2))) \<noteq> x" using big(4) assms(2) by simp
      ultimately show ?thesis unfolding l by (simp only:)
    qed
  qed
qed

text \<open>
  With delimiters below \<^verbatim>\<open>0x80\<close>, comparing the first and the last byte is comparing the
  first and the last rune: \<^verbatim>\<open>IsDelimitedPlaceholder\<close> is true exactly of a non-empty
  string whose first rune is the open delimiter and whose last rune is the close
  delimiter.
\<close>

theorem IsDelimitedPlaceholder_single_byte:
  assumes "0 \<le> OpenDelimiter d" and "OpenDelimiter d < 0x80"
    and "0 \<le> CloseDelimiter d" and "CloseDelimiter d < 0x80"
  shows "IsDelimitedPlaceholder d s
           = (s \<noteq> [] \<and> hd (runes s) = OpenDelimiter d \<and> last (runes s) = CloseDelimiter d)"
proof (cases "s = []")
  case True
  then show ?thesis by (simp add: IsDelimitedPlaceholder_iff)
next
  case False
  then show ?thesis
    using hd_runes_ascii [OF assms(1,2) False] last_runes_ascii [OF assms(3,4) False]
    by (simp add: IsDelimitedPlaceholder_iff)
qed

theorem IsDelimitedPlaceholder_single_byte_witness:
  "IsDelimitedPlaceholder default_delimiters ''{x}''
   \<and> \<not> IsDelimitedPlaceholder default_delimiters []
   \<and> \<not> IsDelimitedPlaceholder default_delimiters ''x''
   \<and> IsDelimitedPlaceholder \<lparr>OpenDelimiter = 0x7C, CloseDelimiter = 0x7C\<rparr> ''|''"
proof -
  have 1: "IsDelimitedPlaceholder default_delimiters ''{x}''"
    using IsDelimitedPlaceholder_single_byte [of default_delimiters "''{x}''"]
    by (simp add: default_delimiters_def byte_def)
  have 2: "\<not> IsDelimitedPlaceholder default_delimiters []"
    using IsDelimitedPlaceholder_single_byte [of default_delimiters "[]"]
    by (simp add: default_delimiters_def)
  have 3: "\<not> IsDelimitedPlaceholder default_delimiters ''x''"
    using IsDelimitedPlaceholder_single_byte [of default_delimiters "''x''"]
    by (simp add: default_delimiters_def byte_def)
  have 4: "IsDelimitedPlaceholder \<lparr>OpenDelimiter = 0x7C, CloseDelimiter = 0x7C\<rparr> ''|''"
    using IsDelimitedPlaceholder_single_byte
      [of "\<lparr>OpenDelimiter = 0x7C, CloseDelimiter = 0x7C\<rparr>" "''|''"]
    by (simp add: byte_def)
  from 1 2 3 4 show ?thesis by blast
qed

section \<open>The text of a placeholder that spans runs\<close>

lemma runes_single_byte: "single_byte s \<Longrightarrow> runes s = map (\<lambda>c. int (byte c)) s"
  by (induction s) (simp_all add: single_byte_def)

lemma Text_loop_append:
  "Text_loop h (fs @ gs) docBytes str
     = (case Text_loop h fs docBytes str of None \<Rightarrow> None | Some t \<Rightarrow> Text_loop h gs docBytes t)"
  by (induction fs arbitrary: str) (simp_all add: Let_def split: option.splits)

lemma slice_whole:
  assumes "in_document h docBytes run"
  shows "slice docBytes (add64 (Text_OpenTag_End (h run)) 0)
           (add64 (Text_OpenTag_End (h run)) (int (length (GetText h run docBytes))))
         = Some (GetText h run docBytes)"
  using slice_GetText [of h run 0 "int (length (GetText h run docBytes))" docBytes] assms
  by (simp add: in_document_def)

lemma Text_loop_spans:
  assumes "list_all (in_document h docBytes) srs"
  shows "Text_loop h
           (map (\<lambda>srun. NewPlaceholderFragment
                   \<lparr>Start = 0, End = int (length (GetText h srun docBytes))\<rparr> srun) srs)
           docBytes str
         = Some (str @ concat (map (\<lambda>srun. GetText h srun docBytes) srs))"
  using assms
proof (induction srs arbitrary: str)
  case Nil
  then show ?case by simp
next
  case (Cons srun srs)
  then show ?case
    using slice_whole [of h docBytes srun]
    by (simp add: NewPlaceholderFragment_def Let_def)
qed

lemma Text_of_shape:
  assumes sh: "placeholder_shape d h docBytes p" and multi: "1 < length (Fragments p)"
    and inA: "in_document h docBytes (Run (hd (Fragments p)))"
    and inB: "list_all (in_document h docBytes) (SpanRun (hd (Fragments p)))"
    and inC: "in_document h docBytes (Run (last (Fragments p)))"
  shows "Text h p docBytes
         = Some (drop (nat (Start (Position (hd (Fragments p)))))
                   (GetText h (Run (hd (Fragments p))) docBytes)
                 @ concat (map (\<lambda>srun. GetText h srun docBytes) (SpanRun (hd (Fragments p))))
                 @ take (nat (End (Position (last (Fragments p)))))
                     (GetText h (Run (last (Fragments p))) docBytes))"
proof -
  define fs where "fs = Fragments p"
  define first where "first = hd fs"
  define lst where "lst = last fs"
  define A where "A = GetText h (Run first) docBytes"
  define C where "C = GetText h (Run lst) docBytes"
  from sh multi have o: "open_at d h docBytes (Run first) (Start (Position first))"
    and c: "close_at d h docBytes (Run lst) (End (Position lst) - 1)"
    and e: "End (Position first) = int (length A)"
    and m: "butlast (tl fs) = span_fragments h docBytes first"
    and z: "Start (Position lst) = 0"
    by (simp_all add: placeholder_shape_def Let_def fs_def first_def lst_def A_def)
  have ne: "fs \<noteq> []" and tne: "tl fs \<noteq> []"
    using multi by (cases "Fragments p"; cases "tl (Fragments p)"; simp add: fs_def)+
  have "last (tl fs) = lst"
    using tne ne by (simp add: lst_def last_tl)
  then have "tl fs = span_fragments h docBytes first @ [lst]"
    using tne m append_butlast_last_id [of "tl fs"] by simp
  then have fs: "fs = first # span_fragments h docBytes first @ [lst]"
    using ne by (simp add: first_def) (metis list.collapse)
  have sA: "0 \<le> Start (Position first)" "Start (Position first) \<le> int (length A)"
    using o length_runes_le [of A] unfolding open_at_def A_def by linarith+
  have s1: "slice docBytes (add64 (Text_OpenTag_End (h (Run first))) (Start (Position first)))
              (add64 (Text_OpenTag_End (h (Run first))) (End (Position first)))
            = Some (drop (nat (Start (Position first))) A)"
    using slice_GetText [of h "Run first" "Start (Position first)" "int (length A)" docBytes]
      sA inA e
    by (simp add: in_document_def A_def fs_def first_def)
  have sC: "0 \<le> End (Position lst)" "End (Position lst) \<le> int (length C)"
    using c length_runes_le [of C] unfolding close_at_def C_def by linarith+
  have s3: "slice docBytes (add64 (Text_OpenTag_End (h (Run lst))) (Start (Position lst)))
              (add64 (Text_OpenTag_End (h (Run lst))) (End (Position lst)))
            = Some (take (nat (End (Position lst))) C)"
    using slice_GetText [of h "Run lst" 0 "End (Position lst)" docBytes] sC inC z
    by (simp add: in_document_def C_def fs_def lst_def)
  have s2: "Text_loop h (span_fragments h docBytes first) docBytes str
            = Some (str @ concat (map (\<lambda>srun. GetText h srun docBytes) (SpanRun first)))" for str
    unfolding span_fragments_def
    using inB by (intro Text_loop_spans) (simp add: fs_def first_def)
  have "Text h p docBytes = Text_loop h (first # span_fragments h docBytes first @ [lst]) docBytes []"
    using fs by (simp add: Text_def fs_def)
  also have "\<dots> = Some (drop (nat (Start (Position first))) A
       @ concat (map (\<lambda>srun. GetText h srun docBytes) (SpanRun first))
       @ take (nat (End (Position lst))) C)"
    by (simp add: s1 Text_loop_append s2 s3 Let_def)
  finally show ?thesis
    by (simp add: fs_def first_def lst_def A_def C_def)
qed

section \<open>The span runs are the runs in between\<close>

lemma scan_runes_no_delimiter:
  "list_all (\<lambda>r. r \<noteq> OpenDelimiter d \<and> r \<noteq> CloseDelimiter d) rs \<Longrightarrow>
   scan_runes d h docBytes run i rs st = st"
  by (induction rs arbitrary: i) (simp_all add: scan_rune_other is_open_def is_close_def)

lemma emitted_between:
  assumes "L = xs @ cur # rest" and "cur \<notin> set xs"
    and "(Run f = cur \<and> SpanRun f = []) \<or> recorded_after d h docBytes xs f"
  shows "recorded_between d h docBytes L (emitted h docBytes cur i f)"
proof (cases "cur = Run f")
  case True
  then show ?thesis by (simp add: recorded_between_def emitted_def)
next
  case False
  with assms(3) obtain ys zs where "xs = ys @ Run f # zs"
    and "SpanRun f = filter (delimiter_free d h docBytes) zs"
    by (auto simp: recorded_after_def)
  then have "L = ys @ Run f # zs @ cur # rest
      \<and> SpanRun f = filter (delimiter_free d h docBytes) zs"
    using assms(1) by simp
  then show ?thesis using False
    by (auto simp: recorded_between_def emitted_def NewPlaceholderFragment_def)
qed

lemma scan_rune_inner:
  assumes "inner_ok d h docBytes L xs cur st" and "L = xs @ cur # rest" and "cur \<notin> set xs"
  shows "inner_ok d h docBytes L xs cur (scan_rune d h docBytes cur i r st)"
proof (cases rule: scan_rune_cases [of d r h docBytes cur i st])
  case push
  then show ?thesis using assms(1)
    by (simp add: inner_ok_def NewPlaceholderFragment_def)
next
  case unmatched
  then show ?thesis using assms(1) by (simp add: inner_ok_def)
next
  case (pop fs f)
  then have "(Run f = cur \<and> SpanRun f = []) \<or> recorded_after d h docBytes xs f"
    using assms(1) by (simp add: inner_ok_def)
  then have "recorded_between d h docBytes L (emitted h docBytes cur i f)"
    using assms(2,3) by (intro emitted_between)
  then show ?thesis using pop assms(1) by (simp add: inner_ok_def)
next
  case other
  then show ?thesis using assms(1) by simp
qed

lemma scan_runes_inner:
  assumes "inner_ok d h docBytes L xs cur st" and "L = xs @ cur # rest" and "cur \<notin> set xs"
  shows "inner_ok d h docBytes L xs cur (scan_runes d h docBytes cur i rs st)"
  using assms(1)
  by (induction rs arbitrary: st i) (simp_all add: scan_rune_inner [OF _ assms(2,3)])

lemma recorded_after_snoc:
  assumes "recorded_after d h docBytes xs f"
  shows "delimiter_free d h docBytes cur \<Longrightarrow>
           recorded_after d h docBytes (xs @ [cur]) (f\<lparr>SpanRun := SpanRun f @ [cur]\<rparr>)"
    and "\<not> delimiter_free d h docBytes cur \<Longrightarrow> recorded_after d h docBytes (xs @ [cur]) f"
proof -
  from assms obtain ys zs where x: "xs = ys @ Run f # zs"
    and s: "SpanRun f = filter (delimiter_free d h docBytes) zs"
    by (auto simp: recorded_after_def)
  have x': "xs @ [cur] = ys @ Run f # (zs @ [cur])" using x by simp
  show "recorded_after d h docBytes (xs @ [cur]) (f\<lparr>SpanRun := SpanRun f @ [cur]\<rparr>)"
    if "delimiter_free d h docBytes cur"
    unfolding recorded_after_def
    by (rule exI [of _ ys], rule exI [of _ "zs @ [cur]"]) (simp add: x s that)
  show "recorded_after d h docBytes (xs @ [cur]) f"
    if "\<not> delimiter_free d h docBytes cur"
    unfolding recorded_after_def
    by (rule exI [of _ ys], rule exI [of _ "zs @ [cur]"]) (simp add: x s that)
qed

lemma recorded_after_new:
  "Run f = cur \<Longrightarrow> SpanRun f = [] \<Longrightarrow> recorded_after d h docBytes (xs @ [cur]) f"
  unfolding recorded_after_def
  by (rule exI [of _ xs], rule exI [of _ "[]"]) simp

lemma scan_run_order:
  assumes ok: "order_ok d h docBytes L xs st" and L: "L = xs @ cur # rest"
    and new: "cur \<notin> set xs"
  shows "order_ok d h docBytes L (xs @ [cur]) (scan_run d h docBytes st cur)"
proof -
  let ?st0 = "st\<lparr>hasDelimiter := False\<rparr>"
  let ?st1 = "scan_runes d h docBytes cur 0 (runes (GetText h cur docBytes)) ?st0"
  have "inner_ok d h docBytes L xs cur ?st0"
    using ok by (auto simp: order_ok_def inner_ok_def list_all_iff)
  then have in1: "inner_ok d h docBytes L xs cur ?st1"
    using L new by (rule scan_runes_inner)
  show ?thesis
  proof (cases "hasDelimiter ?st1")
    case False
    have st: "stack ?st1 = stack st"
      using scan_runes_flag_false [OF False] by simp
    have ps: "list_all (recorded_between d h docBytes L) (placeholders ?st1)"
      using in1 by (simp add: inner_ok_def)
    have "list_all (recorded_after d h docBytes (xs @ [cur]))
            (map (\<lambda>f. f\<lparr>SpanRun := SpanRun f @ [cur]\<rparr>) (stack st))"
    proof (cases "stack st = []")
      case True
      then show ?thesis by simp
    next
      case ne: False
      have "delimiter_free d h docBytes cur"
        using flag_false_delimiter_free [OF False] ne by simp
      then show ?thesis
        using ok recorded_after_snoc(1) [of d h docBytes xs _ cur]
        by (auto simp: order_ok_def list_all_iff)
    qed
    then show ?thesis using False st ps
      by (simp add: scan_run_def Let_def order_ok_def)
  next
    case True
    have nf: "\<not> delimiter_free d h docBytes cur"
    proof
      assume "delimiter_free d h docBytes cur"
      then have "?st1 = ?st0"
        unfolding delimiter_free_def by (rule scan_runes_no_delimiter)
      then show False using True by simp
    qed
    have "recorded_after d h docBytes (xs @ [cur]) f" if "f \<in> set (stack ?st1)" for f
    proof -
      from that in1
      have "(Run f = cur \<and> SpanRun f = []) \<or> recorded_after d h docBytes xs f"
        by (simp add: inner_ok_def list_all_iff)
      then show ?thesis
        using recorded_after_new [of f cur d h docBytes xs]
          recorded_after_snoc(2) [of d h docBytes xs f cur] nf
        by blast
    qed
    then show ?thesis using True in1
      by (simp add: scan_run_def Let_def order_ok_def inner_ok_def list_all_iff)
  qed
qed

lemma scan_fold_order:
  assumes "order_ok d h docBytes L xs st" and "L = xs @ rl" and "distinct L"
  shows "order_ok d h docBytes L L (foldl (scan_run d h docBytes) st rl)"
  using assms
proof (induction rl arbitrary: st xs)
  case Nil
  then show ?case by simp
next
  case (Cons cur rl)
  have "cur \<notin> set xs" using Cons.prems(2,3) by auto
  then have "order_ok d h docBytes L (xs @ [cur]) (scan_run d h docBytes st cur)"
    using Cons.prems(1,2) by (intro scan_run_order) simp_all
  moreover have "L = (xs @ [cur]) @ rl" using Cons.prems(2) by simp
  ultimately show ?case using Cons.IH Cons.prems(3) by simp
qed

lemma scan_all_order:
  assumes "distinct (WithText h runs)"
  shows "order_ok d h docBytes (WithText h runs) (WithText h runs) (scan_all d h runs docBytes)"
  unfolding scan_all_def
  using assms by (intro scan_fold_order [where xs = "[]"]) (simp_all add: order_ok_def initial_state_def)

lemma split_unique:
  "a \<notin> set xs \<Longrightarrow> a \<notin> set ys \<Longrightarrow> xs @ a # r1 = ys @ a # r2 \<Longrightarrow> xs = ys \<and> r1 = r2"
proof (induction xs arbitrary: ys)
  case Nil
  then show ?case by (cases ys) auto
next
  case (Cons x xs)
  show ?case
  proof (cases ys)
    case Nil
    then show ?thesis using Cons.prems by auto
  next
    case (Cons y ys')
    then have "a \<notin> set xs" "a \<notin> set ys'" "xs @ a # r1 = ys' @ a # r2" "x = y"
      using Cons.prems by auto
    then show ?thesis using Cons.IH [of ys'] Cons by simp
  qed
qed

text \<open>
  What the text of a placeholder across runs is. In a sequence of distinct runs that
  lie in the document, take a placeholder whose first fragment is in run \<open>A\<close> and whose last fragment is in a
  later run \<open>C\<close>, the runs \<open>Bs\<close> between them holding no delimiter. Then these are its
  span runs; it starts at the index of an open delimiter of \<open>A\<close> and ends after the
  index of a close delimiter of \<open>C\<close>, both counted in runes; and its text is the text of
  \<open>A\<close> from that many bytes on, the texts of \<open>Bs\<close>, and the text of \<open>C\<close> up to that many
  bytes. When the texts of \<open>A\<close> and \<open>C\<close> are single bytes these bytes are the delimiters:
  the text goes from the open delimiter to the close delimiter, both included.
\<close>

theorem cross_run_text:
  assumes L: "WithText h runs = pre @ A # Bs @ C # post"
    and dist: "distinct (WithText h runs)"
    and free: "list_all (delimiter_free d h docBytes) Bs"
    and indoc: "list_all (in_document h docBytes) (WithText h runs)"
    and p: "p \<in> set (fst (fst (ParsePlaceholders d h runs docBytes)))"
    and pA: "Run (hd (Fragments p)) = A" and pC: "Run (last (Fragments p)) = C"
  shows "SpanRun (hd (Fragments p)) = Bs
       \<and> open_at d h docBytes A (Start (Position (hd (Fragments p))))
       \<and> close_at d h docBytes C (End (Position (last (Fragments p))) - 1)
       \<and> Text h p docBytes
           = Some (drop (nat (Start (Position (hd (Fragments p))))) (GetText h A docBytes)
                   @ concat (map (\<lambda>B. GetText h B docBytes) Bs)
                   @ take (nat (End (Position (last (Fragments p))))) (GetText h C docBytes))
       \<and> (single_byte (GetText h A docBytes) \<longrightarrow>
            int (byte (GetText h A docBytes ! nat (Start (Position (hd (Fragments p))))))
              = OpenDelimiter d)
       \<and> (single_byte (GetText h C docBytes) \<longrightarrow>
            int (byte (GetText h C docBytes ! nat (End (Position (last (Fragments p))) - 1)))
              = CloseDelimiter d)"
proof -
  let ?st = "scan_all d h runs docBytes"
  let ?L = "WithText h runs"
  have pin: "p \<in> set (placeholders ?st)"
    using p by (simp add: ParsePlaceholders_def Let_def)
  have sh: "placeholder_shape d h docBytes p"
    using scan_all_shape [of d h docBytes runs] pin by (simp add: shape_ok_def list_all_iff)
  have AC: "A \<noteq> C" using dist L by auto
  then have multi: "1 < length (Fragments p)"
    using sh pA pC by (cases "Fragments p"; cases "tl (Fragments p)")
      (auto simp: placeholder_shape_def Let_def)
  have o: "open_at d h docBytes A (Start (Position (hd (Fragments p))))"
    and c: "close_at d h docBytes C (End (Position (last (Fragments p))) - 1)"
    using sh pA pC by (auto simp: placeholder_shape_def Let_def)
  have "recorded_between d h docBytes ?L p"
    using scan_all_order [OF dist, of d docBytes] pin by (simp add: order_ok_def list_all_iff)
  then obtain ys zs rest where L': "?L = ys @ A # zs @ C # rest"
    and sp: "SpanRun (hd (Fragments p)) = filter (delimiter_free d h docBytes) zs"
    using multi pA pC by (auto simp: recorded_between_def)
  have d1: "distinct (pre @ A # Bs @ C # post)" using dist L by simp
  have d2: "distinct (ys @ A # zs @ C # rest)" using dist L' by simp
  have "A \<notin> set pre" using d1 by simp
  moreover have "A \<notin> set ys" using d2 by simp
  moreover have "pre @ A # Bs @ C # post = ys @ A # zs @ C # rest" using L L' by simp
  ultimately have e: "pre = ys \<and> Bs @ C # post = zs @ C # rest"
    by (rule split_unique)
  have "C \<notin> set Bs" using d1 by simp
  moreover have "C \<notin> set zs" using d2 by simp
  moreover have "Bs @ C # post = zs @ C # rest" using e by (rule conjunct2)
  ultimately have "Bs = zs \<and> post = rest"
    by (rule split_unique)
  then have "Bs = zs" by (rule conjunct1)
  then have span: "SpanRun (hd (Fragments p)) = Bs"
    using sp free by (simp add: list_all_iff)
  have "in_document h docBytes A" "in_document h docBytes C"
    "list_all (in_document h docBytes) Bs"
    using indoc L by (simp_all add: list_all_iff)
  then have tx: "Text h p docBytes
           = Some (drop (nat (Start (Position (hd (Fragments p))))) (GetText h A docBytes)
                   @ concat (map (\<lambda>B. GetText h B docBytes) Bs)
                   @ take (nat (End (Position (last (Fragments p))))) (GetText h C docBytes))"
    using Text_of_shape [OF sh multi] pA pC span by simp
  have bo: "int (byte (GetText h A docBytes ! nat (Start (Position (hd (Fragments p))))))
              = OpenDelimiter d" if "single_byte (GetText h A docBytes)"
    using o runes_single_byte [OF that] by (auto simp: open_at_def is_open_def)
  have bc: "int (byte (GetText h C docBytes ! nat (End (Position (last (Fragments p))) - 1)))
              = CloseDelimiter d" if "single_byte (GetText h C docBytes)"
    using c runes_single_byte [OF that] by (auto simp: close_at_def is_close_def)
  from span o c tx bo bc show ?thesis by blast
qed

theorem cross_run_text_witness:
  "SpanRun (hd (Fragments (hd (fst (fst
       (ParsePlaceholders default_delimiters span_store [10, 11, 12] span_doc)))))) = [11]
   \<and> Text span_store
        (hd (fst (fst (ParsePlaceholders default_delimiters span_store [10, 11, 12] span_doc))))
        span_doc = Some ''{abc}''"
proof -
  let ?p = "hd (fst (fst (ParsePlaceholders default_delimiters span_store [10, 11, 12] span_doc)))"
  have L: "WithText span_store [10, 11, 12] = [] @ 10 # [11] @ 12 # []"
    and dist: "distinct (WithText span_store [10, 11, 12])"
    by (simp_all add: WithText_def span_store_def)
  have free: "list_all (delimiter_free default_delimiters span_store span_doc) [11]"
    by (simp add: delimiter_free_def span_store_def span_doc_bytes GetText_def byte_def
        default_delimiters_def)
  have indoc: "list_all (in_document span_store span_doc) (WithText span_store [10, 11, 12])"
    by (simp add: WithText_def in_document_def span_store_def span_doc_bytes)
  have p: "?p \<in> set (fst (fst (ParsePlaceholders default_delimiters span_store [10, 11, 12] span_doc)))"
    and pA: "Run (hd (Fragments ?p)) = 10" and pC: "Run (last (Fragments ?p)) = 12"
    and se: "Start (Position (hd (Fragments ?p))) = 0" "End (Position (last (Fragments ?p))) = 2"
    by (simp_all add: span_parse)
  have g: "GetText span_store 10 span_doc = ''{a''" "GetText span_store 11 span_doc = ''b''"
    "GetText span_store 12 span_doc = ''c}''"
    by (simp_all add: span_store_def span_doc_bytes GetText_def)
  from cross_run_text [OF L dist free indoc p pA pC]
  have "SpanRun (hd (Fragments ?p)) = [11]"
    and "Text span_store ?p span_doc
           = Some (drop (nat (Start (Position (hd (Fragments ?p))))) (GetText span_store 10 span_doc)
                   @ concat (map (\<lambda>B. GetText span_store B span_doc) [11])
                   @ take (nat (End (Position (last (Fragments ?p))))) (GetText span_store 12 span_doc))"
    by blast+
  then show ?thesis
    unfolding se by (simp add: g)
qed

text \<open>
  A run with no delimiter in its text changes the state in one way: it is appended to
  the span runs of every fragment on the stack, from the bottom to the top.
\<close>

theorem span_run_absorbed:
  assumes "delimiter_free d h docBytes B"
  shows "scan_run d h docBytes st B
         = st\<lparr>hasDelimiter := False,
              stack := map (\<lambda>f. f\<lparr>SpanRun := SpanRun f @ [B]\<rparr>) (stack st)\<rparr>"
proof -
  have "scan_runes d h docBytes B 0 (runes (GetText h B docBytes)) (st\<lparr>hasDelimiter := False\<rparr>)
          = st\<lparr>hasDelimiter := False\<rparr>"
    using assms unfolding delimiter_free_def by (rule scan_runes_no_delimiter)
  then show ?thesis
    by (simp add: scan_run_def Let_def)
qed

theorem span_run_absorbed_witness:
  "scan_run default_delimiters span_store span_doc
     \<lparr>stack = [\<lparr>Position = \<lparr>Start = 0, End = - 1\<rparr>, Run = 10, SpanRun = []\<rparr>],
        placeholders = [], hasDelimiter = True, log = []\<rparr> 11
   = \<lparr>stack = [\<lparr>Position = \<lparr>Start = 0, End = - 1\<rparr>, Run = 10, SpanRun = [11]\<rparr>],
        placeholders = [], hasDelimiter = False, log = []\<rparr>"
proof -
  have "delimiter_free default_delimiters span_store span_doc 11"
    by (simp add: delimiter_free_def span_store_def span_doc_bytes GetText_def byte_def
        default_delimiters_def)
  from span_run_absorbed [OF this] show ?thesis by simp
qed

end
